theory Spec2Isabelle
  imports Main "HOL-Library.Word" "HOL-Library.Sublist"
begin

section \<open>Python values\<close>

text \<open>
  A Python \<^verbatim>\<open>str\<close> is a sequence of Unicode code points, a \<^verbatim>\<open>bytes\<close> object a
  sequence of integers below 256. The methods of \<^verbatim>\<open>BasicAuth\<close> test their arguments
  with \<^verbatim>\<open>is None\<close> and \<^verbatim>\<open>isinstance(_, str)\<close>, so an argument is a tagged value;
  \<open>'u\<close> is the type of the user objects of \<^verbatim>\<open>models.user\<close>.
\<close>

type_synonym str = "nat list"
type_synonym byte = "8 word"
type_synonym bytes = "byte list"

datatype 'u pyval =
    PNone
  | PStr str
  | PBytes bytes
  | PInt int
  | PBool bool
  | PUser 'u

text \<open>The exceptions that the library calls of the two source files can raise.\<close>

datatype exn =
    ValueError
  | BinasciiError
  | UnicodeDecodeError
  | UnicodeEncodeError
  | ReError
  | StoreError

text \<open>A string literal of the source, as code points.\<close>

definition lit :: "string \<Rightarrow> str" where
  "lit s = map of_char s"

text \<open>\<^verbatim>\<open>s.startswith(p)\<close> and the test \<^verbatim>\<open>':' in s\<close> for a one-character needle.\<close>

definition startswith :: "str \<Rightarrow> str \<Rightarrow> bool" where
  "startswith s p = (take (length p) s = p)"

definition colon :: nat where
  "colon = 58"

definition contains_char :: "nat \<Rightarrow> str \<Rightarrow> bool" where
  "contains_char c s = (c \<in> set s)"

text \<open>
  \<^verbatim>\<open>s.split(sep, maxsplit)\<close> for a one-character separator: at most \<open>maxsplit\<close> cuts,
  made from the left; a string without the separator comes back whole.
\<close>

fun split_char :: "nat \<Rightarrow> nat \<Rightarrow> str \<Rightarrow> str list" where
  "split_char sep 0 s = [s]"
| "split_char sep (Suc n) s =
     (if contains_char sep s
      then takeWhile (\<lambda>c. c \<noteq> sep) s # split_char sep n (tl (dropWhile (\<lambda>c. c \<noteq> sep) s))
      else [s])"

section \<open>\<^verbatim>\<open>BasicAuth\<close>: the stages on the header value\<close>

text \<open>\<^verbatim>\<open>extract_base64_authorization_header\<close> (basic\_auth.py, lines 18-38).\<close>

definition extract_base64_authorization_header :: "'u pyval \<Rightarrow> exn + 'u pyval" where
  "extract_base64_authorization_header authorization_header =
     (case authorization_header of
        PNone \<Rightarrow> Inr PNone
      | PStr s \<Rightarrow>
          if \<not> startswith s (lit ''Basic '') then Inr PNone
          else Inr (PStr (drop 6 s))
      | _ \<Rightarrow> Inr PNone)"

text \<open>
  \<^verbatim>\<open>extract_user_credentials\<close> (lines 63-86). The tuple assignment
  \<^verbatim>\<open>user, password = s.split(':', 1)\<close> raises \<^verbatim>\<open>ValueError\<close> unless the list has
  exactly two elements.
\<close>

definition unpack2 :: "str list \<Rightarrow> exn + ('u pyval \<times> 'u pyval)" where
  "unpack2 xs = (case xs of [user, password] \<Rightarrow> Inr (PStr user, PStr password) | _ \<Rightarrow> Inl ValueError)"

definition extract_user_credentials :: "'u pyval \<Rightarrow> exn + ('u pyval \<times> 'u pyval)" where
  "extract_user_credentials decoded_base64_authorization_header =
     (case decoded_base64_authorization_header of
        PNone \<Rightarrow> Inr (PNone, PNone)
      | PStr s \<Rightarrow>
          if \<not> contains_char colon s then Inr (PNone, PNone)
          else unpack2 (split_char colon 1 s)
      | _ \<Rightarrow> Inr (PNone, PNone))"

section \<open>The library calls of \<^verbatim>\<open>decode_base64_authorization_header\<close>\<close>

text \<open>
  \<^verbatim>\<open>base64.b64decode(s)\<close> and \<^verbatim>\<open>bytes.decode('utf-8')\<close> belong to the Python standard
  library (CPython 3.11), not to the repository; they are written out here because the
  decoding stage is nothing but these two calls inside \<^verbatim>\<open>try\<close>/\<^verbatim>\<open>except\<close>.
\<close>

text \<open>Sequencing of calls that may raise, and \<^verbatim>\<open>try: ... except Exception: return h\<close>.\<close>

definition bind_exn :: "exn + 'a \<Rightarrow> ('a \<Rightarrow> exn + 'b) \<Rightarrow> exn + 'b" where
  "bind_exn m f = (case m of Inl e \<Rightarrow> Inl e | Inr x \<Rightarrow> f x)"

definition try_except :: "exn + 'a \<Rightarrow> 'a \<Rightarrow> exn + 'a" where
  "try_except body h = (case body of Inl e \<Rightarrow> Inr h | Inr x \<Rightarrow> Inr x)"

definition emit :: "'b \<Rightarrow> exn + 'b list \<Rightarrow> exn + 'b list" where
  "emit b r = (case r of Inl e \<Rightarrow> Inl e | Inr bs \<Rightarrow> Inr (b # bs))"

subsection \<open>Base64\<close>

text \<open>
  The base64 alphabet: the character of a six-bit value (\<^verbatim>\<open>table_b2a_base64\<close>) and the
  value of a character (\<^verbatim>\<open>table_a2b_base64\<close>, \<open>None\<close> where the table holds its
  "not in the alphabet" entry).
\<close>

definition b64_alphabet :: str where
  "b64_alphabet = lit ''ABCDEFGHIJKLMNOPQRSTUVWXYZabcdefghijklmnopqrstuvwxyz0123456789+/''"

definition b64_char :: "nat \<Rightarrow> nat" where
  "b64_char i =
     (if i < 26 then 65 + i
      else if i < 52 then 71 + i
      else if i < 62 then i - 4
      else if i = 62 then 43
      else 47)"

definition b64_value :: "nat \<Rightarrow> nat option" where
  "b64_value c =
     (if 65 \<le> c \<and> c \<le> 90 then Some (c - 65)
      else if 97 \<le> c \<and> c \<le> 122 then Some (c - 71)
      else if 48 \<le> c \<and> c \<le> 57 then Some (c + 4)
      else if c = 43 then Some 62
      else if c = 47 then Some 63
      else None)"

definition b64_pad :: nat where
  "b64_pad = 61"

text \<open>
  \<^verbatim>\<open>binascii.b2a_base64(data, newline=False)\<close>, which \<^verbatim>\<open>base64.b64encode\<close> returns:
  three bytes give four characters, a last group of one or two bytes is padded with
  \<^verbatim>\<open>=\<close>. The shifts and masks of the C code are written as \<open>div\<close> and \<open>mod\<close>.
\<close>

fun b2a_base64 :: "nat list \<Rightarrow> nat list" where
  "b2a_base64 [] = []"
| "b2a_base64 [a] = [b64_char (a div 4), b64_char (a mod 4 * 16), b64_pad, b64_pad]"
| "b2a_base64 [a, b] =
     [b64_char (a div 4), b64_char (a mod 4 * 16 + b div 16), b64_char (b mod 16 * 4), b64_pad]"
| "b2a_base64 (a # b # c # rest) =
     b64_char (a div 4) # b64_char (a mod 4 * 16 + b div 16) #
     b64_char (b mod 16 * 4 + c div 64) # b64_char (c mod 64) # b2a_base64 rest"

definition b64encode :: "bytes \<Rightarrow> bytes" where
  "b64encode bs = map of_nat (b2a_base64 (map unat bs))"

text \<open>
  \<^verbatim>\<open>binascii.a2b_base64(data)\<close> in its default, non-strict mode: the loop over the input
  with its state \<^verbatim>\<open>quad_pos\<close>, \<^verbatim>\<open>leftchar\<close>, \<^verbatim>\<open>pads\<close>. A character outside the
  alphabet is skipped; a \<^verbatim>\<open>=\<close> ends the input once it completes a quad that holds at
  least two data characters, and is skipped otherwise; input that ends inside a quad
  raises \<^verbatim>\<open>binascii.Error\<close>. \<^verbatim>\<open>(leftchar << 2) | (this_ch >> 4)\<close> and its two siblings
  have disjoint bits, so they are sums.
\<close>

fun a2b_base64 :: "nat \<Rightarrow> nat \<Rightarrow> nat \<Rightarrow> nat list \<Rightarrow> exn + nat list" where
  "a2b_base64 quad_pos leftchar pads [] =
     (if quad_pos \<noteq> 0 then Inl BinasciiError else Inr [])"
| "a2b_base64 quad_pos leftchar pads (this_ch # rest) =
     (if this_ch = b64_pad then
        (if quad_pos \<ge> 2 \<and> quad_pos + (pads + 1) \<ge> 4 then Inr []
         else a2b_base64 quad_pos leftchar (if quad_pos \<ge> 2 then pads + 1 else pads) rest)
      else
        (case b64_value this_ch of
           None \<Rightarrow> a2b_base64 quad_pos leftchar pads rest
         | Some v \<Rightarrow>
             if quad_pos = 0 then a2b_base64 1 v 0 rest
             else if quad_pos = 1 then
               emit (leftchar * 4 + v div 16) (a2b_base64 2 (v mod 16) 0 rest)
             else if quad_pos = 2 then
               emit (leftchar * 16 + v div 4) (a2b_base64 3 (v mod 4) 0 rest)
             else
               emit (leftchar * 64 + v) (a2b_base64 0 0 0 rest)))"

text \<open>
  \<^verbatim>\<open>base64.b64decode(s)\<close> for a \<^verbatim>\<open>str\<close> argument: \<^verbatim>\<open>s.encode('ascii')\<close> first, a
  \<^verbatim>\<open>ValueError\<close> when a character is not ASCII, then \<^verbatim>\<open>binascii.a2b_base64\<close>.
\<close>

definition bytes_from_decode_data :: "str \<Rightarrow> exn + nat list" where
  "bytes_from_decode_data s = (if list_all (\<lambda>c. c < 128) s then Inr s else Inl ValueError)"

definition b64decode :: "str \<Rightarrow> exn + bytes" where
  "b64decode s =
     bind_exn (bytes_from_decode_data s) (\<lambda>data.
     bind_exn (a2b_base64 0 0 0 data) (\<lambda>bin. Inr (map of_nat bin)))"

subsection \<open>UTF-8\<close>

text \<open>
  \<^verbatim>\<open>bytes.decode('utf-8')\<close> with the default \<^verbatim>\<open>errors='strict'\<close>: the well-formed byte
  sequences of the Unicode standard (no overlong form, no surrogate, nothing above
  U+10FFFF); anything else raises \<^verbatim>\<open>UnicodeDecodeError\<close>.
\<close>

definition is_cont :: "nat \<Rightarrow> bool" where
  "is_cont b = (128 \<le> b \<and> b < 192)"

fun utf8_decode :: "nat list \<Rightarrow> exn + str" where
  "utf8_decode [] = Inr []"
| "utf8_decode (b0 # bs) =
     (if b0 < 128 then emit b0 (utf8_decode bs)
      else if 194 \<le> b0 \<and> b0 < 224 then
        (case bs of
           b1 # r \<Rightarrow>
             if is_cont b1 then emit ((b0 - 192) * 64 + (b1 - 128)) (utf8_decode r)
             else Inl UnicodeDecodeError
         | _ \<Rightarrow> Inl UnicodeDecodeError)
      else if 224 \<le> b0 \<and> b0 < 240 then
        (case bs of
           b1 # b2 # r \<Rightarrow>
             if is_cont b1 \<and> is_cont b2 \<and> (b0 = 224 \<longrightarrow> 160 \<le> b1) \<and> (b0 = 237 \<longrightarrow> b1 < 160)
             then emit ((b0 - 224) * 4096 + (b1 - 128) * 64 + (b2 - 128)) (utf8_decode r)
             else Inl UnicodeDecodeError
         | _ \<Rightarrow> Inl UnicodeDecodeError)
      else if 240 \<le> b0 \<and> b0 < 245 then
        (case bs of
           b1 # b2 # b3 # r \<Rightarrow>
             if is_cont b1 \<and> is_cont b2 \<and> is_cont b3 \<and>
                (b0 = 240 \<longrightarrow> 144 \<le> b1) \<and> (b0 = 244 \<longrightarrow> b1 < 144)
             then emit ((b0 - 240) * 262144 + (b1 - 128) * 4096 + (b2 - 128) * 64 + (b3 - 128))
                    (utf8_decode r)
             else Inl UnicodeDecodeError
         | _ \<Rightarrow> Inl UnicodeDecodeError)
      else Inl UnicodeDecodeError)"

definition bytes_decode_utf8 :: "bytes \<Rightarrow> exn + str" where
  "bytes_decode_utf8 bs = utf8_decode (map unat bs)"

text \<open>
  \<^verbatim>\<open>str.encode('utf-8')\<close>, which a client applies to \<^verbatim>\<open>user:password\<close> before the
  base64 encoding: a surrogate code point raises \<^verbatim>\<open>UnicodeEncodeError\<close>. A number from
  0x110000 on is no code point of a Python string; the model rejects it the same way.
\<close>

definition utf8_encode_char :: "nat \<Rightarrow> exn + nat list" where
  "utf8_encode_char c =
     (if c < 128 then Inr [c]
      else if c < 2048 then Inr [192 + c div 64, 128 + c mod 64]
      else if c < 65536 then
        (if 55296 \<le> c \<and> c < 57344 then Inl UnicodeEncodeError
         else Inr [224 + c div 4096, 128 + c div 64 mod 64, 128 + c mod 64])
      else if c < 1114112 then
        Inr [240 + c div 262144, 128 + c div 4096 mod 64, 128 + c div 64 mod 64, 128 + c mod 64]
      else Inl UnicodeEncodeError)"

fun utf8_encode :: "str \<Rightarrow> exn + nat list" where
  "utf8_encode [] = Inr []"
| "utf8_encode (c # cs) =
     bind_exn (utf8_encode_char c) (\<lambda>bs.
     bind_exn (utf8_encode cs) (\<lambda>rest. Inr (bs @ rest)))"

definition str_encode_utf8 :: "str \<Rightarrow> exn + bytes" where
  "str_encode_utf8 s = bind_exn (utf8_encode s) (\<lambda>bs. Inr (map of_nat bs))"

text \<open>\<^verbatim>\<open>bytes.decode('ascii')\<close> of the output of \<^verbatim>\<open>b64encode\<close>, which is ASCII.\<close>

definition bytes_decode_ascii :: "bytes \<Rightarrow> str" where
  "bytes_decode_ascii bs = map unat bs"

text \<open>
  The header value a client builds from a user name and a password:
  \<^verbatim>\<open>"Basic " + base64.b64encode((user + ":" + pwd).encode('utf-8')).decode('ascii')\<close>.
\<close>

definition basic_header :: "str \<Rightarrow> str \<Rightarrow> exn + str" where
  "basic_header user pwd =
     bind_exn (str_encode_utf8 (user @ [colon] @ pwd)) (\<lambda>raw.
     Inr (lit ''Basic '' @ bytes_decode_ascii (b64encode raw)))"

section \<open>\<^verbatim>\<open>BasicAuth\<close>: decoding\<close>

text \<open>\<^verbatim>\<open>decode_base64_authorization_header\<close> (lines 40-61).\<close>

definition decode_base64_authorization_header :: "'u pyval \<Rightarrow> exn + 'u pyval" where
  "decode_base64_authorization_header base64_authorization_header =
     (case base64_authorization_header of
        PNone \<Rightarrow> Inr PNone
      | PStr s \<Rightarrow>
          try_except
            (bind_exn (b64decode s) (\<lambda>decoded_bytes.
             bind_exn (bytes_decode_utf8 decoded_bytes) (\<lambda>decoded_str.
             Inr (PStr decoded_str))))
            PNone
      | _ \<Rightarrow> Inr PNone)"

section \<open>\<^verbatim>\<open>BasicAuth\<close>: the user store and \<^verbatim>\<open>current_user\<close>\<close>

text \<open>
  \<^verbatim>\<open>user_object_from_credentials\<close> and \<^verbatim>\<open>current_user\<close> call other methods and the
  user store. Their model returns, next to the result, the calls made in the order they
  were made, so that "is not called" can be stated.
\<close>

datatype 'u call =
    Call_authorization_header
  | Call_extract_base64_authorization_header
  | Call_decode_base64_authorization_header
  | Call_extract_user_credentials
  | Call_user_object_from_credentials
  | Call_search str
  | Call_is_valid_password 'u str

type_synonym ('u, 'a) traced = "(exn + 'a) \<times> 'u call list"

definition ret :: "'a \<Rightarrow> ('u, 'a) traced" where
  "ret x = (Inr x, [])"

definition call :: "'u call \<Rightarrow> exn + 'a \<Rightarrow> ('u, 'a) traced" where
  "call c r = (r, [c])"

definition bind_traced :: "('u, 'a) traced \<Rightarrow> ('a \<Rightarrow> ('u, 'b) traced) \<Rightarrow> ('u, 'b) traced" where
  "bind_traced m f =
     (case fst m of
        Inl e \<Rightarrow> (Inl e, snd m)
      | Inr x \<Rightarrow> (fst (f x), snd m @ snd (f x)))"

text \<open>
  The store is outside the repository files at hand. It is a parameter:
  \<open>search email\<close> is \<^verbatim>\<open>User.search({'email': email})\<close> in the store's present state,
  a list of users or an exception; \<open>is_valid_password user pwd\<close> is
  \<^verbatim>\<open>user.is_valid_password(pwd)\<close>, a predicate that does not raise.
\<close>

text \<open>The loop \<^verbatim>\<open>for user in users: if user.is_valid_password(user_pwd): return user\<close>.\<close>

fun for_users :: "('u \<Rightarrow> str \<Rightarrow> bool) \<Rightarrow> str \<Rightarrow> 'u list \<Rightarrow> ('u, 'u pyval) traced" where
  "for_users is_valid_password user_pwd [] = ret PNone"
| "for_users is_valid_password user_pwd (user # users) =
     bind_traced
       (call (Call_is_valid_password user user_pwd) (Inr (is_valid_password user user_pwd)))
       (\<lambda>ok. if ok then ret (PUser user)
             else for_users is_valid_password user_pwd users)"

text \<open>\<^verbatim>\<open>user_object_from_credentials\<close> (lines 88-115).\<close>

definition user_object_from_credentials ::
  "(str \<Rightarrow> exn + 'u list) \<Rightarrow> ('u \<Rightarrow> str \<Rightarrow> bool) \<Rightarrow> 'u pyval \<Rightarrow> 'u pyval \<Rightarrow> ('u, 'u pyval) traced"
where
  "user_object_from_credentials search is_valid_password user_email user_pwd =
     (case (user_email, user_pwd) of
        (PStr email, PStr pwd) \<Rightarrow>
          (case search email of
             Inl e \<Rightarrow> (Inr PNone, [Call_search email])
           | Inr users \<Rightarrow>
               bind_traced (call (Call_search email) (Inr users))
                 (for_users is_valid_password pwd))
      | _ \<Rightarrow> ret PNone)"

text \<open>
  \<^verbatim>\<open>current_user\<close> (lines 117-157). \<^verbatim>\<open>self.authorization_header\<close> is inherited from
  \<^verbatim>\<open>Auth\<close>, which is not among the files at hand; it is the parameter
  \<open>authorization_header\<close>, giving the header value of a request or \<^verbatim>\<open>None\<close>. The
  argument \<^verbatim>\<open>request=None\<close> is an optional request.
\<close>

definition current_user ::
  "('r \<Rightarrow> 'u pyval) \<Rightarrow> (str \<Rightarrow> exn + 'u list) \<Rightarrow> ('u \<Rightarrow> str \<Rightarrow> bool) \<Rightarrow> 'r option
     \<Rightarrow> ('u, 'u pyval) traced"
where
  "current_user authorization_header search is_valid_password request =
     (case request of
        None \<Rightarrow> ret PNone
      | Some req \<Rightarrow>
          bind_traced (call Call_authorization_header (Inr (authorization_header req)))
            (\<lambda>base64_authorization_header.
          if base64_authorization_header = PNone then ret PNone
          else
          bind_traced (call Call_extract_base64_authorization_header
              (extract_base64_authorization_header base64_authorization_header))
            (\<lambda>encoded_base64.
          if encoded_base64 = PNone then ret PNone
          else
          bind_traced (call Call_decode_base64_authorization_header
              (decode_base64_authorization_header encoded_base64))
            (\<lambda>decoded_base64.
          if decoded_base64 = PNone then ret PNone
          else
          bind_traced (call Call_extract_user_credentials
              (extract_user_credentials decoded_base64))
            (\<lambda>(user_email, user_pwd).
          if user_email = PNone \<or> user_pwd = PNone then ret PNone
          else
          bind_traced (call Call_user_object_from_credentials (Inr ()))
            (\<lambda>_. user_object_from_credentials search is_valid_password user_email user_pwd))))))"

text \<open>Stages one to three in sequence, as \<^verbatim>\<open>current_user\<close> chains them.\<close>

definition credentials_of_header :: "'u pyval \<Rightarrow> exn + ('u pyval \<times> 'u pyval)" where
  "credentials_of_header header =
     bind_exn (extract_base64_authorization_header header) (\<lambda>encoded_base64.
     bind_exn (decode_base64_authorization_header encoded_base64) (\<lambda>decoded_base64.
     extract_user_credentials decoded_base64))"

section \<open>\<^verbatim>\<open>filter_datum\<close>\<close>

text \<open>
  \<^verbatim>\<open>re.sub(rf'({"|".join(fields)})=[^{separator}]+', lambda m: f'{m.group(1)}={redaction}', message)\<close>
  (filtered\_logger.py, line 4). The field names are pasted into the pattern as they
  are. The model covers the patterns whose alternatives, the pieces of the joined names
  between \<^verbatim>\<open>|\<close>, are free of the special characters of \<^verbatim>\<open>re\<close>: each alternative
  then matches itself and nothing else. For any other pattern the model gives
  \<open>Outside_fragment\<close> and says nothing about the code.
\<close>

datatype 'a outcome = Returns 'a | Raises exn | Outside_fragment

definition equals :: nat where
  "equals = 61"

definition bar :: nat where
  "bar = 124"

definition backslash :: nat where
  "backslash = 92"

text \<open>The characters \<^verbatim>\<open>. ^ $ * + ? { } [ ] \ | ( )\<close>.\<close>

definition re_special :: "nat \<Rightarrow> bool" where
  "re_special c = (c \<in> set [46, 94, 36, 42, 43, 63, 123, 125, 91, 93, 92, 124, 40, 41])"

text \<open>\<^verbatim>\<open>"|".join(fields)\<close>.\<close>

fun join_bar :: "str list \<Rightarrow> str" where
  "join_bar [] = []"
| "join_bar [f] = f"
| "join_bar (f # g # fs) = f @ bar # join_bar (g # fs)"

text \<open>The alternatives of the group: the joined names cut at every \<^verbatim>\<open>|\<close>.\<close>

definition alternatives :: "str list \<Rightarrow> str list" where
  "alternatives fields = split_char bar (length (join_bar fields)) (join_bar fields)"

text \<open>
  A match of the pattern at the start of \<open>s\<close>: the first alternative, in their order,
  that is followed by \<^verbatim>\<open>=\<close> and at least one character other than the separator; the
  run \<^verbatim>\<open>[^sep]+\<close> is greedy and nothing follows it, so it extends to the next separator
  or to the end. The result is the text of group 1 and the length of the match.
\<close>

fun match_at :: "str list \<Rightarrow> nat \<Rightarrow> str \<Rightarrow> (str \<times> nat) option" where
  "match_at [] sep s = None"
| "match_at (alt # alts) sep s =
     (if startswith s (alt @ [equals]) \<and>
         takeWhile (\<lambda>c. c \<noteq> sep) (drop (length alt + 1) s) \<noteq> []
      then Some (alt, length alt + 1 + length (takeWhile (\<lambda>c. c \<noteq> sep) (drop (length alt + 1) s)))
      else match_at alts sep s)"

text \<open>
  \<^verbatim>\<open>re.sub\<close> with a function as replacement: the matches are found from the left and
  do not overlap; each is replaced with group 1, \<^verbatim>\<open>=\<close> and the redaction; the search
  goes on behind the match.
\<close>

function re_sub :: "str list \<Rightarrow> str \<Rightarrow> nat \<Rightarrow> str \<Rightarrow> str" where
  "re_sub alts redaction sep [] = []"
| "re_sub alts redaction sep (c # cs) =
     (case match_at alts sep (c # cs) of
        Some (group1, n) \<Rightarrow>
          group1 @ [equals] @ redaction @ re_sub alts redaction sep (drop n (c # cs))
      | None \<Rightarrow> c # re_sub alts redaction sep cs)"
  by pat_completeness auto
termination
proof (relation "measure (\<lambda>(alts, redaction, sep, s). length s)")
  show "wf (measure (\<lambda>(alts, redaction, sep, s). length s))"
    by simp
next
  fix alts :: "str list" and redaction :: str and sep c :: nat and cs :: str
    and x2 :: "str \<times> nat" and group1 :: str and n :: nat
  assume m: "match_at alts sep (c # cs) = Some x2" and x: "(group1, n) = x2"
  have "\<And>s g k. match_at alts sep s = Some (g, k) \<Longrightarrow> 0 < k"
    by (induction alts) (auto split: if_splits)
  with m x have "0 < n"
    by metis
  then show "((alts, redaction, sep, drop n (c # cs)), (alts, redaction, sep, c # cs))
      \<in> measure (\<lambda>(alts, redaction, sep, s). length s)"
    by (cases n) simp_all
next
  fix alts :: "str list" and redaction :: str and sep c :: nat and cs :: str
  show "((alts, redaction, sep, cs), (alts, redaction, sep, c # cs))
      \<in> measure (\<lambda>(alts, redaction, sep, s). length s)"
    by simp
qed

text \<open>
  \<^verbatim>\<open>filter_datum\<close>. The set \<^verbatim>\<open>[^sep]\<close> is well formed for every one-character separator
  but the backslash, where \<^verbatim>\<open>re\<close> raises "unterminated character set".
\<close>

definition filter_datum :: "str list \<Rightarrow> str \<Rightarrow> str \<Rightarrow> nat \<Rightarrow> str outcome" where
  "filter_datum fields redaction message separator =
     (if list_ex (list_ex re_special) (alternatives fields) then Outside_fragment
      else if separator = backslash then Raises ReError
      else Returns (re_sub (alternatives fields) redaction separator message))"

text \<open>
  The words of the description of \<^verbatim>\<open>filter_datum\<close>, for comparison with the code: a
  field name occurs at the start of \<open>s\<close> when \<open>s\<close> begins with the name, \<^verbatim>\<open>=\<close> and a
  non-empty run of characters other than the separator; a list of names occurs there
  when one of them does.
\<close>

definition field_at :: "str \<Rightarrow> nat \<Rightarrow> str \<Rightarrow> bool" where
  "field_at f sep s =
     (prefix (f @ [equals]) s \<and> takeWhile (\<lambda>c. c \<noteq> sep) (drop (length f + 1) s) \<noteq> [])"

definition occurs_at :: "str list \<Rightarrow> nat \<Rightarrow> str \<Rightarrow> bool" where
  "occurs_at fields sep s = list_ex (\<lambda>f. field_at f sep s) fields"

section \<open>Properties of the stages\<close>

lemma lit_Basic: "lit ''Basic '' = [66, 97, 115, 105, 99, 32]"
  by (simp add: lit_def)

lemma startswith_prefix: "startswith s p = prefix p s"
  unfolding startswith_def prefix_def
  by (metis append_eq_conv_conj append_take_drop_id)

lemma split_char_1:
  "contains_char sep s \<Longrightarrow>
   split_char sep 1 s = [takeWhile (\<lambda>c. c \<noteq> sep) s, tl (dropWhile (\<lambda>c. c \<noteq> sep) s)]"
  unfolding One_nat_def by simp

text \<open>
  C4. A header value that is \<^verbatim>\<open>None\<close>, not a string, or a string that does not start
  with the six characters \<^verbatim>\<open>Basic \<close> gives \<^verbatim>\<open>None\<close>; a string that starts with them
  gives exactly what follows the first six characters.
\<close>

theorem extract_token_spec:
  "((\<forall>s. v \<noteq> PStr s) \<longrightarrow> extract_base64_authorization_header v = Inr PNone) \<and>
   (\<not> prefix (lit ''Basic '') s \<longrightarrow> extract_base64_authorization_header (PStr s) = Inr PNone) \<and>
   (prefix (lit ''Basic '') s \<longrightarrow>
      extract_base64_authorization_header (PStr s) = Inr (PStr (drop 6 s))) \<and>
   extract_base64_authorization_header (PStr (lit ''Basic '' @ t)) = Inr (PStr t)"
proof -
  have len: "length (lit ''Basic '') = 6"
    by (simp add: lit_def)
  have a: "(\<forall>s. v \<noteq> PStr s) \<longrightarrow> extract_base64_authorization_header v = Inr PNone"
    by (cases v) (simp_all add: extract_base64_authorization_header_def)
  have b: "\<not> prefix (lit ''Basic '') s \<longrightarrow>
      extract_base64_authorization_header (PStr s) = Inr PNone"
    by (simp add: extract_base64_authorization_header_def startswith_prefix)
  have c: "prefix (lit ''Basic '') s \<longrightarrow>
      extract_base64_authorization_header (PStr s) = Inr (PStr (drop 6 s))"
    by (simp add: extract_base64_authorization_header_def startswith_prefix)
  have d: "extract_base64_authorization_header (PStr (lit ''Basic '' @ t)) = Inr (PStr t)"
    by (simp add: extract_base64_authorization_header_def startswith_prefix len)
  from a b c d show ?thesis by blast
qed

theorem extract_token_spec_witness:
  "extract_base64_authorization_header (PInt 5 :: unit pyval) = Inr PNone \<and>
   \<not> prefix (lit ''Basic '') (lit ''basic YWJj'') \<and>
   extract_base64_authorization_header (PStr (lit ''basic YWJj'') :: unit pyval) = Inr PNone \<and>
   prefix (lit ''Basic '') (lit ''Basic YWJj'') \<and>
   extract_base64_authorization_header (PStr (lit ''Basic YWJj'') :: unit pyval)
     = Inr (PStr (lit ''YWJj''))"
proof -
  have n: "\<not> prefix (lit ''Basic '') (lit ''basic YWJj'')"
    by (simp add: lit_def)
  have y: "prefix (lit ''Basic '') (lit ''Basic YWJj'')"
    by (simp add: lit_def)
  have d: "drop 6 (lit ''Basic YWJj'') = lit ''YWJj''"
    by (simp add: lit_def)
  have k: "\<forall>s. (PInt 5 :: unit pyval) \<noteq> PStr s"
    by simp
  from extract_token_spec [of "PInt 5 :: unit pyval" "lit ''basic YWJj''"] k n
  have a: "extract_base64_authorization_header (PInt 5 :: unit pyval) = Inr PNone"
    and b: "extract_base64_authorization_header (PStr (lit ''basic YWJj'') :: unit pyval) = Inr PNone"
    by blast+
  from extract_token_spec [of "PInt 5 :: unit pyval" "lit ''Basic YWJj''"] y d
  have c: "extract_base64_authorization_header (PStr (lit ''Basic YWJj'') :: unit pyval)
      = Inr (PStr (lit ''YWJj''))"
    by metis
  from a b c n y show ?thesis by blast
qed

lemma first_colon_split:
  assumes "sep \<notin> set u"
  shows "takeWhile (\<lambda>c. c \<noteq> sep) (u @ sep # p) = u"
    and "tl (dropWhile (\<lambda>c. c \<noteq> sep) (u @ sep # p)) = p"
  using assms by (induction u) auto

lemma extract_user_credentials_str:
  "extract_user_credentials (PStr s) =
     (if colon \<in> set s
      then Inr (PStr (takeWhile (\<lambda>c. c \<noteq> colon) s), PStr (tl (dropWhile (\<lambda>c. c \<noteq> colon) s)))
      else Inr (PNone, PNone))"
  by (simp add: extract_user_credentials_def unpack2_def split_char_1 contains_char_def)

lemma extract_user_credentials_not_str:
  "(\<forall>s. v \<noteq> PStr s) \<Longrightarrow> extract_user_credentials v = Inr (PNone, PNone)"
  by (cases v) (simp_all add: extract_user_credentials_def)

lemma extract_user_credentials_append:
  "colon \<notin> set u \<Longrightarrow> extract_user_credentials (PStr (u @ colon # p)) = Inr (PStr u, PStr p)"
  by (simp add: extract_user_credentials_str first_colon_split)

text \<open>
  C6. A string with a colon is cut at its first colon only: the user name is what stands
  before it, the password everything behind it, further colons included, so
  \<^verbatim>\<open>aa:bb:cc\<close> gives \<^verbatim>\<open>aa\<close> and \<^verbatim>\<open>bb:cc\<close>. A string without a colon, \<^verbatim>\<open>None\<close> and
  any value that is no string give \<^verbatim>\<open>(None, None)\<close>.
\<close>

theorem split_credentials_first_colon:
  "(colon \<notin> set u \<longrightarrow>
      extract_user_credentials (PStr (u @ colon # p)) = Inr (PStr u, PStr p)) \<and>
   (colon \<in> set s \<longrightarrow>
      (\<exists>u p. s = u @ colon # p \<and> colon \<notin> set u \<and>
         extract_user_credentials (PStr s) = Inr (PStr u, PStr p))) \<and>
   extract_user_credentials (PStr (lit ''aa:bb:cc'')) = Inr (PStr (lit ''aa''), PStr (lit ''bb:cc'')) \<and>
   (colon \<notin> set s \<longrightarrow> extract_user_credentials (PStr s) = Inr (PNone, PNone)) \<and>
   ((\<forall>s. v \<noteq> PStr s) \<longrightarrow> extract_user_credentials v = Inr (PNone, PNone))"
proof -
  have a: "colon \<notin> set u \<longrightarrow>
      extract_user_credentials (PStr (u @ colon # p)) = Inr (PStr u, PStr p)"
    by (simp add: extract_user_credentials_append)
  have b: "colon \<in> set s \<longrightarrow>
      (\<exists>u p. s = u @ colon # p \<and> colon \<notin> set u \<and>
         extract_user_credentials (PStr s) = Inr (PStr u, PStr p))"
  proof
    assume "colon \<in> set s"
    then obtain u p where "s = u @ colon # p" and "colon \<notin> set u"
      by (meson split_list_first)
    then show "\<exists>u p. s = u @ colon # p \<and> colon \<notin> set u \<and>
         extract_user_credentials (PStr s) = Inr (PStr u, PStr p)"
      using extract_user_credentials_append by blast
  qed
  have "lit ''aa:bb:cc'' = lit ''aa'' @ colon # lit ''bb:cc''" and "colon \<notin> set (lit ''aa'')"
    by (simp_all add: lit_def colon_def)
  then have c: "extract_user_credentials (PStr (lit ''aa:bb:cc''))
      = Inr (PStr (lit ''aa''), PStr (lit ''bb:cc''))"
    by (simp add: extract_user_credentials_append)
  have d: "colon \<notin> set s \<longrightarrow> extract_user_credentials (PStr s) = Inr (PNone, PNone)"
    by (simp add: extract_user_credentials_str)
  have e: "(\<forall>s. v \<noteq> PStr s) \<longrightarrow> extract_user_credentials v = Inr (PNone, PNone)"
    by (simp add: extract_user_credentials_not_str)
  from a b c d e show ?thesis by blast
qed

theorem split_credentials_first_colon_witness:
  "colon \<notin> set (lit ''bob@x.com'') \<and>
   extract_user_credentials (PStr (lit ''bob@x.com'' @ colon # lit ''se:cret'') :: unit pyval)
     = Inr (PStr (lit ''bob@x.com''), PStr (lit ''se:cret'')) \<and>
   colon \<notin> set (lit ''nocolonhere'') \<and>
   extract_user_credentials (PStr (lit ''nocolonhere'') :: unit pyval) = Inr (PNone, PNone) \<and>
   extract_user_credentials (PBytes [97, 58, 98] :: unit pyval) = Inr (PNone, PNone)"
proof -
  have u: "colon \<notin> set (lit ''bob@x.com'')" and n: "colon \<notin> set (lit ''nocolonhere'')"
    by (simp_all add: lit_def colon_def)
  have k: "\<forall>s. (PBytes [97, 58, 98] :: unit pyval) \<noteq> PStr s"
    by simp
  from split_credentials_first_colon
    [of "lit ''bob@x.com''" "lit ''se:cret''" "lit ''nocolonhere''" "PBytes [97, 58, 98] :: unit pyval"]
    u n k
  show ?thesis by blast
qed

text \<open>
  C9. The splitting stage returns a pair of two strings (either may be empty) or the
  pair \<^verbatim>\<open>(None, None)\<close>, never a pair with one \<^verbatim>\<open>None\<close> and one string: for a returned
  pair, "one component is \<^verbatim>\<open>None\<close>" is the same as "both are", and it holds exactly when
  the argument was not a string with a colon.
\<close>

theorem split_credentials_no_mixed_pair:
  "((\<exists>u p. extract_user_credentials v = Inr (PStr u, PStr p)) \<or>
      extract_user_credentials v = Inr (PNone, PNone)) \<and>
   (extract_user_credentials v = Inr (a, b) \<longrightarrow>
      ((a = PNone \<or> b = PNone) = (a = PNone \<and> b = PNone)) \<and>
      ((a = PNone \<or> b = PNone) = (\<not> (\<exists>s. v = PStr s \<and> colon \<in> set s))))"
proof (cases "\<exists>s. v = PStr s \<and> colon \<in> set s")
  case True
  then obtain s where "v = PStr s" and "colon \<in> set s"
    by blast
  then have "extract_user_credentials v =
      Inr (PStr (takeWhile (\<lambda>c. c \<noteq> colon) s), PStr (tl (dropWhile (\<lambda>c. c \<noteq> colon) s)))"
    by (simp add: extract_user_credentials_str)
  with True show ?thesis
    by auto
next
  case False
  then have "extract_user_credentials v = Inr (PNone, PNone)"
    by (cases v) (simp_all add: extract_user_credentials_str extract_user_credentials_not_str)
  with False show ?thesis
    by auto
qed

theorem split_credentials_no_mixed_pair_witness:
  "extract_user_credentials (PStr (lit '':'') :: unit pyval) = Inr (PStr [], PStr []) \<and>
   ((PStr [] :: unit pyval) = PNone \<or> (PStr [] :: unit pyval) = PNone)
     = (\<not> (\<exists>s. (PStr (lit '':'') :: unit pyval) = PStr s \<and> colon \<in> set s))"
proof -
  have e: "extract_user_credentials (PStr (lit '':'') :: unit pyval) = Inr (PStr [], PStr [])"
    by (simp add: extract_user_credentials_str lit_def colon_def)
  from split_credentials_no_mixed_pair
    [of "PStr (lit '':'') :: unit pyval" "PStr []" "PStr []"] e
  show ?thesis by blast
qed

section \<open>Properties of the store functions and of \<^verbatim>\<open>current_user\<close>\<close>

lemma extract_cases:
  "extract_base64_authorization_header v = Inr PNone \<or>
   (\<exists>t. extract_base64_authorization_header v = Inr (PStr t))"
  by (cases v) (simp_all add: extract_base64_authorization_header_def)

lemma decode_cases:
  "decode_base64_authorization_header v = Inr PNone \<or>
   (\<exists>t. decode_base64_authorization_header v = Inr (PStr t))"
  by (cases v)
    (auto simp: decode_base64_authorization_header_def try_except_def bind_exn_def
      split: sum.splits)

lemma split_cases:
  "extract_user_credentials v = Inr (PNone, PNone) \<or>
   (\<exists>u p. extract_user_credentials v = Inr (PStr u, PStr p))"
proof (cases "\<exists>s. v = PStr s")
  case True
  then show ?thesis
    by (auto simp: extract_user_credentials_str)
next
  case False
  then show ?thesis
    by (simp add: extract_user_credentials_not_str)
qed

lemma for_users_fst:
  "fst (for_users is_valid_password pwd users) =
     Inr (case find (\<lambda>u. is_valid_password u pwd) users of None \<Rightarrow> PNone | Some u \<Rightarrow> PUser u)"
  by (induction users) (simp_all add: ret_def bind_traced_def call_def)

lemma for_users_snd:
  "snd (for_users is_valid_password pwd users) =
     map (\<lambda>u. Call_is_valid_password u pwd)
       (takeWhile (\<lambda>u. \<not> is_valid_password u pwd) users @
        take 1 (dropWhile (\<lambda>u. \<not> is_valid_password u pwd) users))"
  by (induction users) (simp_all add: ret_def bind_traced_def call_def)

lemma uofc_fst:
  "fst (user_object_from_credentials search is_valid_password (PStr email) (PStr pwd)) =
     (case search email of
        Inl e \<Rightarrow> Inr PNone
      | Inr users \<Rightarrow>
          Inr (case find (\<lambda>u. is_valid_password u pwd) users of None \<Rightarrow> PNone | Some u \<Rightarrow> PUser u))"
  by (simp add: user_object_from_credentials_def bind_traced_def call_def for_users_fst
      split: sum.splits)

lemma uofc_snd:
  "snd (user_object_from_credentials search is_valid_password (PStr email) (PStr pwd)) =
     Call_search email #
     (case search email of
        Inl e \<Rightarrow> []
      | Inr users \<Rightarrow> snd (for_users is_valid_password pwd users))"
  by (simp add: user_object_from_credentials_def bind_traced_def call_def
      split: sum.splits)


lemma credentials_PNone: "credentials_of_header PNone = Inr (PNone, PNone)"
  by (simp add: credentials_of_header_def bind_exn_def extract_base64_authorization_header_def
      decode_base64_authorization_header_def extract_user_credentials_def)

lemma credentials_step1:
  "extract_base64_authorization_header h = Inr PNone \<Longrightarrow>
   credentials_of_header h = Inr (PNone, PNone)"
  by (simp add: credentials_of_header_def bind_exn_def
      decode_base64_authorization_header_def extract_user_credentials_def)

lemma credentials_step2:
  "extract_base64_authorization_header h = Inr t \<Longrightarrow>
   decode_base64_authorization_header t = Inr PNone \<Longrightarrow>
   credentials_of_header h = Inr (PNone, PNone)"
  by (simp add: credentials_of_header_def bind_exn_def extract_user_credentials_def)

lemma credentials_step3:
  "extract_base64_authorization_header h = Inr t \<Longrightarrow>
   decode_base64_authorization_header t = Inr d \<Longrightarrow>
   credentials_of_header h = extract_user_credentials d"
  by (simp add: credentials_of_header_def bind_exn_def)

lemma credentials_cases:
  "credentials_of_header h = Inr (PNone, PNone) \<or>
   (\<exists>u p. credentials_of_header h = Inr (PStr u, PStr p))"
proof -
  from extract_cases [of h] obtain t where t: "extract_base64_authorization_header h = Inr t"
    by blast
  from decode_cases [of t] obtain d where d: "decode_base64_authorization_header t = Inr d"
    by blast
  from credentials_step3 [OF t d] split_cases [of d] show ?thesis
    by simp
qed

lemma current_user_None:
  "current_user authorization_header search is_valid_password None = (Inr PNone, [])"
  by (simp add: current_user_def ret_def)

lemma current_user_no_header:
  "authorization_header req = PNone \<Longrightarrow>
   current_user authorization_header search is_valid_password (Some req)
     = (Inr PNone, [Call_authorization_header])"
  by (simp add: current_user_def ret_def bind_traced_def call_def)

lemma current_user_rejected:
  assumes "credentials_of_header (authorization_header req) = Inr (PNone, PNone)"
  shows "fst (current_user authorization_header search is_valid_password (Some req)) = Inr PNone"
    and "set (snd (current_user authorization_header search is_valid_password (Some req)))
      \<subseteq> {Call_authorization_header, Call_extract_base64_authorization_header,
          Call_decode_base64_authorization_header, Call_extract_user_credentials}"
proof -
  let ?h = "authorization_header req"
  let ?cu = "current_user authorization_header search is_valid_password (Some req)"
  from extract_cases [of ?h] obtain t where t: "extract_base64_authorization_header ?h = Inr t"
    by blast
  from decode_cases [of t] obtain d where d: "decode_base64_authorization_header t = Inr d"
    by blast
  from credentials_step3 [OF t d] assms
  have s: "extract_user_credentials d = Inr (PNone, PNone)"
    by simp
  have "fst ?cu = Inr PNone \<and> set (snd ?cu)
      \<subseteq> {Call_authorization_header, Call_extract_base64_authorization_header,
          Call_decode_base64_authorization_header, Call_extract_user_credentials}"
    using t d s
    by (simp add: current_user_def ret_def bind_traced_def call_def)
  then show "fst ?cu = Inr PNone"
    and "set (snd ?cu)
      \<subseteq> {Call_authorization_header, Call_extract_base64_authorization_header,
          Call_decode_base64_authorization_header, Call_extract_user_credentials}"
    by simp_all
qed

lemma current_user_accepted:
  assumes "credentials_of_header (authorization_header req) = Inr (PStr email, PStr pwd)"
  shows "current_user authorization_header search is_valid_password (Some req) =
     (fst (user_object_from_credentials search is_valid_password (PStr email) (PStr pwd)),
      [Call_authorization_header, Call_extract_base64_authorization_header,
       Call_decode_base64_authorization_header, Call_extract_user_credentials,
       Call_user_object_from_credentials] @
      snd (user_object_from_credentials search is_valid_password (PStr email) (PStr pwd)))"
proof -
  let ?h = "authorization_header req"
  from extract_cases [of ?h] obtain t where t: "extract_base64_authorization_header ?h = Inr t"
    by blast
  from decode_cases [of t] obtain d where d: "decode_base64_authorization_header t = Inr d"
    by blast
  from credentials_step3 [OF t d] assms
  have s: "extract_user_credentials d = Inr (PStr email, PStr pwd)"
    by simp
  have "?h \<noteq> PNone"
    using assms by (auto simp: credentials_PNone)
  moreover have "t \<noteq> PNone"
    using t assms by (auto simp: credentials_step1)
  moreover have "d \<noteq> PNone"
    using t d assms by (auto simp: credentials_step2)
  ultimately show ?thesis
    using t d s
    by (simp add: current_user_def ret_def bind_traced_def call_def)
qed

lemma b64decode_bob: "b64decode (lit ''Ym9iQHguY29tOnNlY3JldA=='') = Inr (map of_nat (lit ''bob@x.com:secret''))"
  by (simp add: b64decode_def bytes_from_decode_data_def bind_exn_def lit_def b64_pad_def
      b64_value_def emit_def)

lemma utf8_bob: "bytes_decode_utf8 (map of_nat (lit ''bob@x.com:secret'')) = Inr (lit ''bob@x.com:secret'')"
  by (simp add: bytes_decode_utf8_def lit_def emit_def)

lemma decode_bob: "decode_base64_authorization_header (PStr (lit ''Ym9iQHguY29tOnNlY3JldA=='')) = Inr (PStr (lit ''bob@x.com:secret''))"
  by (simp add: decode_base64_authorization_header_def b64decode_bob utf8_bob bind_exn_def try_except_def)

lemma credentials_bob: "credentials_of_header (PStr (lit ''Basic Ym9iQHguY29tOnNlY3JldA=='')) = Inr (PStr (lit ''bob@x.com''), PStr (lit ''secret''))"
proof -
  have a: "extract_base64_authorization_header (PStr (lit ''Basic Ym9iQHguY29tOnNlY3JldA==''))
    = Inr (PStr (lit ''Ym9iQHguY29tOnNlY3JldA==''))"
    by (simp add: extract_base64_authorization_header_def startswith_def lit_def)
  have b: "extract_user_credentials (PStr (lit ''bob@x.com:secret'')) = Inr (PStr (lit ''bob@x.com''), PStr (lit ''secret''))"
    by (simp add: extract_user_credentials_str lit_def colon_def)
  show ?thesis
    by (simp add: credentials_step3 [OF a decode_bob] b)
qed

lemma find_first_split:
  "find P xs = Some x \<Longrightarrow>
   \<exists>pre post. xs = pre @ x # post \<and> P x \<and> (\<forall>y\<in>set pre. \<not> P y)"
proof (induction xs)
  case Nil
  then show ?case by simp
next
  case (Cons a xs)
  show ?case
  proof (cases "P a")
    case True
    with Cons.prems have "a = x" by simp
    with True have "a # xs = [] @ x # xs \<and> P x \<and> (\<forall>y\<in>set []. \<not> P y)" by simp
    then show ?thesis by blast
  next
    case False
    with Cons obtain pre post where "xs = pre @ x # post" "P x" "\<forall>y\<in>set pre. \<not> P y"
      by auto
    with False have "a # xs = (a # pre) @ x # post \<and> P x \<and> (\<forall>y\<in>set (a # pre). \<not> P y)"
      by simp
    then show ?thesis by blast
  qed
qed

lemma find_append_first:
  "(\<forall>y\<in>set pre. \<not> P y) \<Longrightarrow> P x \<Longrightarrow> find P (pre @ x # post) = Some x"
  by (induction pre) simp_all

lemma find_none: "(\<forall>y\<in>set xs. \<not> P y) \<Longrightarrow> find P xs = None"
  by (induction xs) simp_all

lemma for_users_nonempty:
  "find (\<lambda>u. is_valid_password u pwd) users = Some x \<Longrightarrow>
   snd (for_users is_valid_password pwd users) \<noteq> []"
  by (cases users) (auto simp: ret_def bind_traced_def call_def)

lemma for_users_last:
  "find (\<lambda>u. is_valid_password u pwd) users = Some x \<Longrightarrow>
   last (snd (for_users is_valid_password pwd users)) = Call_is_valid_password x pwd"
proof (induction users)
  case Nil
  then show ?case by simp
next
  case (Cons a users)
  show ?case
  proof (cases "is_valid_password a pwd")
    case True
    with Cons.prems show ?thesis
      by (simp add: ret_def bind_traced_def call_def)
  next
    case False
    with Cons.prems have f: "find (\<lambda>u. is_valid_password u pwd) users = Some x"
      by simp
    from False have "snd (for_users is_valid_password pwd (a # users)) =
        Call_is_valid_password a pwd # snd (for_users is_valid_password pwd users)"
      by (simp add: ret_def bind_traced_def call_def)
    moreover have "snd (for_users is_valid_password pwd users) \<noteq> []"
      using f by (rule for_users_nonempty)
    moreover have "last (snd (for_users is_valid_password pwd users))
        = Call_is_valid_password x pwd"
      using f by (rule Cons.IH)
    ultimately show ?thesis
      by simp
  qed
qed



text \<open>
  C2. Whenever \<^verbatim>\<open>current_user\<close> returns a user, whatever the request and whatever the
  store answers, the header of the request went through the three stages to a user name
  and a password, the user is one of those the store's search returned for that name,
  \<^verbatim>\<open>is_valid_password\<close> holds of this user and this password, and that check is the
  last call \<^verbatim>\<open>current_user\<close> made.
\<close>

theorem principal_only_after_password_check:
  assumes "fst (current_user authorization_header search is_valid_password request)
      = Inr (PUser p)"
  shows "\<exists>req email pwd users.
      request = Some req \<and>
      credentials_of_header (authorization_header req) = Inr (PStr email, PStr pwd) \<and>
      search email = Inr users \<and> p \<in> set users \<and>
      is_valid_password p pwd \<and>
      last (snd (current_user authorization_header search is_valid_password request))
        = Call_is_valid_password p pwd"
proof -
  let ?cu = "current_user authorization_header search is_valid_password"
  from assms obtain req where req: "request = Some req"
    by (cases request) (simp_all add: current_user_None)
  from assms req have "credentials_of_header (authorization_header req) \<noteq> Inr (PNone, PNone)"
    using current_user_rejected(1) [of authorization_header req search is_valid_password]
    by auto
  with credentials_cases [of "authorization_header req"] obtain email pwd
    where cr: "credentials_of_header (authorization_header req) = Inr (PStr email, PStr pwd)"
    by blast
  let ?uo = "user_object_from_credentials search is_valid_password (PStr email) (PStr pwd)"
  have acc: "?cu (Some req) =
     (fst ?uo,
      [Call_authorization_header, Call_extract_base64_authorization_header,
       Call_decode_base64_authorization_header, Call_extract_user_credentials,
       Call_user_object_from_credentials] @ snd ?uo)"
    using cr by (rule current_user_accepted)
  from assms req acc have r: "fst ?uo = Inr (PUser p)"
    by simp
  then obtain users where us: "search email = Inr users"
    by (cases "search email") (simp_all add: uofc_fst)
  with r have f: "find (\<lambda>u. is_valid_password u pwd) users = Some p"
    by (simp add: uofc_fst split: option.splits)
  from find_first_split [OF f] have mem: "p \<in> set users" and ok: "is_valid_password p pwd"
    by auto
  from us have "snd ?uo = Call_search email # snd (for_users is_valid_password pwd users)"
    by (simp add: uofc_snd)
  moreover from f have "snd (for_users is_valid_password pwd users) \<noteq> []"
    by (rule for_users_nonempty)
  moreover have "last (snd (for_users is_valid_password pwd users))
      = Call_is_valid_password p pwd"
    using f by (rule for_users_last)
  ultimately have "last (snd (?cu request)) = Call_is_valid_password p pwd"
    using req acc by simp
  with req cr us mem ok show ?thesis
    by blast
qed

theorem principal_only_after_password_check_witness:
  "fst (current_user (\<lambda>r. r)
          (\<lambda>e. if e = lit ''bob@x.com'' then Inr [7 :: nat] else Inr [])
          (\<lambda>u p. u = 7 \<and> p = lit ''secret'')
          (Some (PStr (lit ''Basic Ym9iQHguY29tOnNlY3JldA=='')))) = Inr (PUser 7) \<and>
   (\<exists>req email pwd users.
      Some (PStr (lit ''Basic Ym9iQHguY29tOnNlY3JldA=='') :: nat pyval) = Some req \<and>
      credentials_of_header req = Inr (PStr email, PStr pwd) \<and>
      (if email = lit ''bob@x.com'' then Inr [7 :: nat] else Inr []) = (Inr users :: exn + nat list) \<and>
      7 \<in> set users \<and> pwd = lit ''secret'' \<and>
      last (snd (current_user (\<lambda>r. r)
          (\<lambda>e. if e = lit ''bob@x.com'' then Inr [7 :: nat] else Inr [])
          (\<lambda>u p. u = 7 \<and> p = lit ''secret'')
          (Some (PStr (lit ''Basic Ym9iQHguY29tOnNlY3JldA==''))))) = Call_is_valid_password 7 pwd)"
proof -
  let ?search = "\<lambda>e. if e = lit ''bob@x.com'' then Inr [7 :: nat] else Inr []"
  let ?valid = "\<lambda>(u :: nat) p. u = 7 \<and> p = lit ''secret''"
  let ?req = "Some (PStr (lit ''Basic Ym9iQHguY29tOnNlY3JldA=='') :: nat pyval)"
  have c: "credentials_of_header ((\<lambda>r. r) (PStr (lit ''Basic Ym9iQHguY29tOnNlY3JldA=='') :: nat pyval))
      = Inr (PStr (lit ''bob@x.com''), PStr (lit ''secret''))"
    by (simp add: credentials_bob)
  have a: "current_user (\<lambda>r. r) ?search ?valid ?req =
     (fst (user_object_from_credentials ?search ?valid (PStr (lit ''bob@x.com'')) (PStr (lit ''secret''))),
      [Call_authorization_header, Call_extract_base64_authorization_header,
       Call_decode_base64_authorization_header, Call_extract_user_credentials,
       Call_user_object_from_credentials] @
      snd (user_object_from_credentials ?search ?valid (PStr (lit ''bob@x.com'')) (PStr (lit ''secret''))))"
    using c by (rule current_user_accepted)
  have u: "fst (user_object_from_credentials ?search ?valid (PStr (lit ''bob@x.com'')) (PStr (lit ''secret'')))
      = Inr (PUser 7)"
    by (simp add: uofc_fst)
  have e: "fst (current_user (\<lambda>r. r) ?search ?valid ?req) = Inr (PUser 7)"
    by (simp only: a fst_conv u)
  note t = principal_only_after_password_check
    [where authorization_header = "\<lambda>r. r" and search = ?search and is_valid_password = ?valid
       and request = ?req and p = 7, OF e]
  from e t show ?thesis
    by simp
qed

text \<open>
  C7. For a user name and a password that are strings: when the store's search returns a
  list of users, the result is the first user of that list, in its order, for which
  \<^verbatim>\<open>is_valid_password\<close> holds of the password, and \<^verbatim>\<open>None\<close> when it holds of none; when
  the search raises, the result is \<^verbatim>\<open>None\<close>, nothing is raised, and no password is
  checked.
\<close>

theorem user_object_first_valid:
  "(search email = Inr users \<longrightarrow>
      fst (user_object_from_credentials search is_valid_password (PStr email) (PStr pwd)) =
        Inr (case find (\<lambda>u. is_valid_password u pwd) users of
               None \<Rightarrow> PNone | Some u \<Rightarrow> PUser u)) \<and>
   (search email = Inr (pre @ u # post) \<and> (\<forall>x\<in>set pre. \<not> is_valid_password x pwd) \<and>
      is_valid_password u pwd \<longrightarrow>
      fst (user_object_from_credentials search is_valid_password (PStr email) (PStr pwd)) =
        Inr (PUser u)) \<and>
   (search email = Inr users \<and> (\<forall>x\<in>set users. \<not> is_valid_password x pwd) \<longrightarrow>
      fst (user_object_from_credentials search is_valid_password (PStr email) (PStr pwd)) =
        Inr PNone) \<and>
   (search email = Inl e \<longrightarrow>
      user_object_from_credentials search is_valid_password (PStr email) (PStr pwd) =
        (Inr PNone, [Call_search email]))"
proof -
  let ?r = "fst (user_object_from_credentials search is_valid_password (PStr email) (PStr pwd))"
  have a: "search email = Inr users \<longrightarrow>
      ?r = Inr (case find (\<lambda>u. is_valid_password u pwd) users of
               None \<Rightarrow> PNone | Some u \<Rightarrow> PUser u)"
    by (simp add: uofc_fst)
  have b: "search email = Inr (pre @ u # post) \<and> (\<forall>x\<in>set pre. \<not> is_valid_password x pwd) \<and>
      is_valid_password u pwd \<longrightarrow> ?r = Inr (PUser u)"
    by (simp add: uofc_fst find_append_first)
  have c: "search email = Inr users \<and> (\<forall>x\<in>set users. \<not> is_valid_password x pwd) \<longrightarrow>
      ?r = Inr PNone"
    by (simp add: uofc_fst find_none)
  have d: "search email = Inl e \<longrightarrow>
      user_object_from_credentials search is_valid_password (PStr email) (PStr pwd) =
        (Inr PNone, [Call_search email])"
    by (simp add: user_object_from_credentials_def)
  from a b c d show ?thesis by blast
qed

theorem user_object_first_valid_witness:
  "fst (user_object_from_credentials (\<lambda>e. Inr [1, 2, 3 :: nat]) (\<lambda>u p. 2 \<le> u)
          (PStr (lit ''a'')) (PStr (lit ''p''))) = Inr (PUser 2) \<and>
   fst (user_object_from_credentials (\<lambda>e. Inr [1, 2, 3 :: nat]) (\<lambda>u p. 5 \<le> u)
          (PStr (lit ''a'')) (PStr (lit ''p''))) = Inr PNone \<and>
   user_object_from_credentials (\<lambda>e. Inl StoreError) (\<lambda>(u :: nat) p. 2 \<le> u)
          (PStr (lit ''a'')) (PStr (lit ''p''))
     = (Inr PNone, [Call_search (lit ''a'')])"
proof -
  from user_object_first_valid
    [where search = "\<lambda>e. Inr [1, 2, 3 :: nat]" and is_valid_password = "\<lambda>u p. 2 \<le> u"
       and email = "lit ''a''" and pwd = "lit ''p''" and pre = "[1]" and u = 2 and post = "[3]"
       and users = "[1, 2, 3]"]
  have a: "fst (user_object_from_credentials (\<lambda>e. Inr [1, 2, 3 :: nat]) (\<lambda>u p. 2 \<le> u)
          (PStr (lit ''a'')) (PStr (lit ''p''))) = Inr (PUser 2)"
    by simp
  from user_object_first_valid
    [where search = "\<lambda>e. Inr [1, 2, 3 :: nat]" and is_valid_password = "\<lambda>u p. 5 \<le> u"
       and email = "lit ''a''" and pwd = "lit ''p''" and users = "[1, 2, 3]"]
  have b: "fst (user_object_from_credentials (\<lambda>e. Inr [1, 2, 3 :: nat]) (\<lambda>u p. 5 \<le> u)
          (PStr (lit ''a'')) (PStr (lit ''p''))) = Inr PNone"
    by simp
  from user_object_first_valid
    [where search = "\<lambda>e. Inl StoreError" and is_valid_password = "\<lambda>(u :: nat) p. 2 \<le> u"
       and email = "lit ''a''" and pwd = "lit ''p''" and e = StoreError]
  have c: "user_object_from_credentials (\<lambda>e. Inl StoreError) (\<lambda>(u :: nat) p. 2 \<le> u)
          (PStr (lit ''a'')) (PStr (lit ''p''))
     = (Inr PNone, [Call_search (lit ''a'')])"
    by simp
  from a b c show ?thesis
    by blast
qed

text \<open>
  C8. Without a request, \<^verbatim>\<open>current_user\<close> returns \<^verbatim>\<open>None\<close> and calls nothing; for a
  request without an Authorization header it returns \<^verbatim>\<open>None\<close> after the one call that
  reads the header: no later stage runs, and the store is neither searched nor asked
  to check a password, whatever the store would have answered.
\<close>

theorem current_user_short_circuit:
  "current_user authorization_header search is_valid_password None = (Inr PNone, []) \<and>
   (authorization_header req = PNone \<longrightarrow>
      current_user authorization_header search is_valid_password (Some req)
        = (Inr PNone, [Call_authorization_header]))"
  by (simp add: current_user_None current_user_no_header)

theorem current_user_short_circuit_witness:
  "current_user (\<lambda>r. r) (\<lambda>e. Inr [7 :: nat]) (\<lambda>u p. True) (Some PNone)
     = (Inr PNone, [Call_authorization_header])"
proof -
  have "(\<lambda>r. r) (PNone :: nat pyval) = PNone"
    by simp
  with current_user_short_circuit
    [where authorization_header = "\<lambda>r. r" and req = "PNone :: nat pyval"
       and search = "\<lambda>e. Inr [7 :: nat]" and is_valid_password = "\<lambda>u p. True"]
  show ?thesis
    by blast
qed

section \<open>Encoding and decoding are inverse\<close>

subsection \<open>Base64\<close>

lemma b64_char_value: "i < 64 \<Longrightarrow> b64_value (b64_char i) = Some i"
  unfolding b64_value_def b64_char_def by auto

lemma b64_char_not_pad: "i < 64 \<Longrightarrow> b64_char i \<noteq> b64_pad"
  unfolding b64_char_def b64_pad_def by auto

lemma b64_char_ascii: "b64_char i < 128"
  unfolding b64_char_def by auto

lemma sextet_byte1:
  fixes a b :: nat
  assumes "b < 256"
  shows "a div 4 * 4 + (a mod 4 * 16 + b div 16) div 16 = a"
proof -
  have "b div 16 < 16" using assms by simp
  then have "(a mod 4 * 16 + b div 16) div 16 = a mod 4" by simp
  then show ?thesis by simp
qed

lemma sextet_byte2:
  fixes a b c :: nat
  assumes "b < 256" "c < 256"
  shows "(a mod 4 * 16 + b div 16) mod 16 * 16 + (b mod 16 * 4 + c div 64) div 4 = b"
proof -
  have "b div 16 < 16" "c div 64 < 4" using assms by simp_all
  then have "(a mod 4 * 16 + b div 16) mod 16 = b div 16"
    and "(b mod 16 * 4 + c div 64) div 4 = b mod 16" by simp_all
  then show ?thesis by simp
qed

lemma sextet_byte3:
  fixes b c :: nat
  assumes "c < 256"
  shows "(b mod 16 * 4 + c div 64) mod 4 * 64 + c mod 64 = c"
proof -
  have "c div 64 < 4" using assms by simp
  then have "(b mod 16 * 4 + c div 64) mod 4 = c div 64" by simp
  then show ?thesis by simp
qed

lemma sextet_byte1_tail:
  fixes a :: nat
  shows "a div 4 * 4 + (a mod 4 * 16) div 16 = a"
    and  "(a mod 4 * 16) mod 16 = 0"
  by simp_all

lemma sextet_byte2_tail:
  fixes a b :: nat
  assumes "b < 256"
  shows "(a mod 4 * 16 + b div 16) mod 16 * 16 + (b mod 16 * 4) div 4 = b"
proof -
  have "b div 16 < 16" using assms by simp
  then have "(a mod 4 * 16 + b div 16) mod 16 = b div 16" by simp
  then show ?thesis by simp
qed

lemma sextet_bounds:
  fixes a b c :: nat
  assumes "a < 256" "b < 256" "c < 256"
  shows "a div 4 < 64" "a mod 4 * 16 + b div 16 < 64" "b mod 16 * 4 + c div 64 < 64"
    "c mod 64 < 64" "a mod 4 * 16 < 64" "b mod 16 * 4 < 64"
proof -
  have "a mod 4 < 4" "b div 16 < 16" "b mod 16 < 16" "c div 64 < 4" using assms by simp_all
  then show "a mod 4 * 16 + b div 16 < 64" "b mod 16 * 4 + c div 64 < 64"
    "a mod 4 * 16 < 64" "b mod 16 * 4 < 64" by linarith+
  show "a div 4 < 64" "c mod 64 < 64" using assms by simp_all
qed

lemma a2b_step0:
  "v < 64 \<Longrightarrow> a2b_base64 0 leftchar pads (b64_char v # rest) = a2b_base64 1 v 0 rest"
  by (simp add: b64_char_value b64_char_not_pad)

lemma a2b_step1:
  "v < 64 \<Longrightarrow> a2b_base64 1 leftchar pads (b64_char v # rest) =
     emit (leftchar * 4 + v div 16) (a2b_base64 2 (v mod 16) 0 rest)"
  by (simp add: b64_char_value b64_char_not_pad)

lemma a2b_step2:
  "v < 64 \<Longrightarrow> a2b_base64 2 leftchar pads (b64_char v # rest) =
     emit (leftchar * 16 + v div 4) (a2b_base64 3 (v mod 4) 0 rest)"
  by (simp add: b64_char_value b64_char_not_pad)

lemma a2b_step3:
  "v < 64 \<Longrightarrow> a2b_base64 3 leftchar pads (b64_char v # rest) =
     emit (leftchar * 64 + v) (a2b_base64 0 0 0 rest)"
  by (simp add: b64_char_value b64_char_not_pad)

lemma a2b_pad2: "a2b_base64 2 leftchar 0 (b64_pad # b64_pad # rest) = Inr []"
  by simp

lemma a2b_pad3: "a2b_base64 3 leftchar 0 (b64_pad # rest) = Inr []"
  by simp

lemma a2b_quad:
  assumes "v0 < 64" "v1 < 64" "v2 < 64" "v3 < 64"
  shows "a2b_base64 0 leftchar pads (b64_char v0 # b64_char v1 # b64_char v2 # b64_char v3 # rest) =
     emit (v0 * 4 + v1 div 16) (emit (v1 mod 16 * 16 + v2 div 4) (emit (v2 mod 4 * 64 + v3)
       (a2b_base64 0 0 0 rest)))"
  by (simp only: a2b_step0 [OF assms(1)] a2b_step1 [OF assms(2)] a2b_step2 [OF assms(3)]
      a2b_step3 [OF assms(4)])

lemma a2b_tail1:
  assumes "v0 < 64" "v1 < 64"
  shows "a2b_base64 0 leftchar pads [b64_char v0, b64_char v1, b64_pad, b64_pad] =
     Inr [v0 * 4 + v1 div 16]"
  by (simp only: a2b_step0 [OF assms(1)] a2b_step1 [OF assms(2)] a2b_pad2 emit_def sum.case)

lemma a2b_tail2:
  assumes "v0 < 64" "v1 < 64" "v2 < 64"
  shows "a2b_base64 0 leftchar pads [b64_char v0, b64_char v1, b64_char v2, b64_pad] =
     Inr [v0 * 4 + v1 div 16, v1 mod 16 * 16 + v2 div 4]"
  by (simp only: a2b_step0 [OF assms(1)] a2b_step1 [OF assms(2)] a2b_step2 [OF assms(3)]
      a2b_pad3 emit_def sum.case)

lemma a2b_b2a:
  "list_all (\<lambda>b. b < 256) bs \<Longrightarrow> a2b_base64 0 leftchar pads (b2a_base64 bs) = Inr bs"
proof (induction bs arbitrary: leftchar pads rule: b2a_base64.induct)
  case 1
  then show ?case by simp
next
  case (2 a)
  then have a: "a < 256" by simp
  note bd = sextet_bounds [OF a a a]
  have "a2b_base64 0 leftchar pads (b2a_base64 [a]) = Inr [a div 4 * 4 + a mod 4 * 16 div 16]"
    by (simp only: b2a_base64.simps a2b_tail1 [OF bd(1) bd(5)])
  also have "a div 4 * 4 + a mod 4 * 16 div 16 = a"
    by (rule sextet_byte1_tail)
  finally show ?case .
next
  case (3 a b)
  then have a: "a < 256" and b: "b < 256" by simp_all
  note bd = sextet_bounds [OF a b b]
  have "a2b_base64 0 leftchar pads (b2a_base64 [a, b]) =
      Inr [a div 4 * 4 + (a mod 4 * 16 + b div 16) div 16,
           (a mod 4 * 16 + b div 16) mod 16 * 16 + b mod 16 * 4 div 4]"
    by (simp only: b2a_base64.simps a2b_tail2 [OF bd(1) bd(2) bd(6)])
  also have "a div 4 * 4 + (a mod 4 * 16 + b div 16) div 16 = a"
    using b by (rule sextet_byte1)
  also have "(a mod 4 * 16 + b div 16) mod 16 * 16 + b mod 16 * 4 div 4 = b"
    using b by (rule sextet_byte2_tail)
  finally show ?case .
next
  case (4 a b c rest)
  then have a: "a < 256" and b: "b < 256" and c: "c < 256"
    and r: "list_all (\<lambda>b. b < 256) rest" by simp_all
  note bd = sextet_bounds [OF a b c]
  have ih: "a2b_base64 0 0 0 (b2a_base64 rest) = Inr rest"
    using r by (rule "4.IH")
  have "a2b_base64 0 leftchar pads (b2a_base64 (a # b # c # rest)) =
      emit (a div 4 * 4 + (a mod 4 * 16 + b div 16) div 16)
        (emit ((a mod 4 * 16 + b div 16) mod 16 * 16 + (b mod 16 * 4 + c div 64) div 4)
          (emit ((b mod 16 * 4 + c div 64) mod 4 * 64 + c mod 64) (Inr rest)))"
    by (simp only: b2a_base64.simps a2b_quad [OF bd(1) bd(2) bd(3) bd(4)] ih)
  also have "a div 4 * 4 + (a mod 4 * 16 + b div 16) div 16 = a"
    using b by (rule sextet_byte1)
  also have "(a mod 4 * 16 + b div 16) mod 16 * 16 + (b mod 16 * 4 + c div 64) div 4 = b"
    using b c by (rule sextet_byte2)
  also have "(b mod 16 * 4 + c div 64) mod 4 * 64 + c mod 64 = c"
    using c by (rule sextet_byte3)
  finally show ?case
    by (simp add: emit_def)
qed

lemma b2a_ascii: "list_all (\<lambda>c. c < 128) (b2a_base64 bs)"
  by (induction bs rule: b2a_base64.induct) (simp_all add: b64_char_ascii b64_pad_def)

subsection \<open>UTF-8\<close>

lemma utf8_two:
  fixes c :: nat
  assumes "128 \<le> c" "c < 2048"
  shows "194 \<le> 192 + c div 64" "192 + c div 64 < 224"
    "128 \<le> 128 + c mod 64" "128 + c mod 64 < 192"
    "(192 + c div 64 - 192) * 64 + (128 + c mod 64 - 128) = c"
  using assms by simp_all

lemma utf8_three_a:
  fixes c :: nat
  assumes "2048 \<le> c" "c < 65536"
  shows "224 \<le> 224 + c div 4096" "224 + c div 4096 < 240"
    "128 \<le> 128 + c div 64 mod 64" "128 + c div 64 mod 64 < 192"
    "128 \<le> 128 + c mod 64" "128 + c mod 64 < 192"
  using assms by simp_all

lemma radix64:
  fixes q :: nat
  shows "q div 64 * 4096 + q mod 64 * 64 = q * 64"
proof -
  define x y where "x = q div 64" and "y = q mod 64"
  have "q = x * 64 + y"
    unfolding x_def y_def by simp
  then show "x * 4096 + y * 64 = q * 64"
    by simp
qed

lemma radix64_three:
  fixes c :: nat
  shows "c div 4096 * 4096 + c div 64 mod 64 * 64 + c mod 64 = c"
proof -
  have b: "c div 4096 = c div 64 div 64"
    by (simp add: div_mult2_eq [symmetric])
  have "c div 4096 * 4096 + c div 64 mod 64 * 64 = c div 64 * 64"
    unfolding b by (rule radix64)
  then show ?thesis
    by simp
qed

lemma radix64_four:
  fixes c :: nat
  shows "c div 262144 * 262144 + c div 4096 mod 64 * 4096 + c div 64 mod 64 * 64 + c mod 64 = c"
proof -
  have b: "c div 262144 = c div 4096 div 64"
    by (simp add: div_mult2_eq [symmetric])
  have "c div 4096 div 64 * 4096 + c div 4096 mod 64 * 64 = c div 4096 * 64"
    by (rule radix64)
  then have "c div 262144 * 262144 + c div 4096 mod 64 * 4096 = c div 4096 * 4096"
    unfolding b by simp
  with radix64_three [of c] show ?thesis
    by simp
qed

lemma utf8_three_low:
  fixes c :: nat
  assumes "2048 \<le> c" "c div 4096 = 0"
  shows "32 \<le> c div 64 mod 64"
proof -
  from assms(2) have "c < 4096" by simp
  then have "c div 64 < 64" by simp
  then have "c div 64 mod 64 = c div 64" by simp
  moreover from assms(1) have "32 \<le> c div 64" by simp
  ultimately show ?thesis by simp
qed

lemma utf8_three_high:
  fixes c :: nat
  assumes "c div 4096 = 13" "c < 55296"
  shows "c div 64 mod 64 < 32"
proof -
  define q where "q = c div 64"
  have "q div 64 = 13"
    using assms(1) unfolding q_def by (simp add: div_mult2_eq [symmetric])
  moreover have "q < 864"
    using assms(2) unfolding q_def by simp
  moreover have "q = q div 64 * 64 + q mod 64"
    by simp
  ultimately have "q mod 64 < 32"
    by linarith
  then show ?thesis
    unfolding q_def .
qed

lemma utf8_four_low:
  fixes c :: nat
  assumes "65536 \<le> c" "c div 262144 = 0"
  shows "16 \<le> c div 4096 mod 64"
proof -
  from assms(2) have "c < 262144" by simp
  then have "c div 4096 < 64" by simp
  then have "c div 4096 mod 64 = c div 4096" by simp
  moreover from assms(1) have "16 \<le> c div 4096" by simp
  ultimately show ?thesis by simp
qed

lemma utf8_four_high:
  fixes c :: nat
  assumes "c div 262144 = 4" "c < 1114112"
  shows "c div 4096 mod 64 < 16"
proof -
  define q where "q = c div 4096"
  have "q div 64 = 4"
    using assms(1) unfolding q_def by (simp add: div_mult2_eq [symmetric])
  moreover have "q < 272"
    using assms(2) unfolding q_def by simp
  moreover have "q = q div 64 * 64 + q mod 64"
    by simp
  ultimately have "q mod 64 < 16"
    by linarith
  then show ?thesis
    unfolding q_def .
qed

lemma utf8_four_lead:
  fixes c :: nat
  assumes "65536 \<le> c" "c < 1114112"
  shows "c div 262144 < 5"
  using assms by simp

lemma utf8_decode_one:
  "b0 < 128 \<Longrightarrow> utf8_decode (b0 # bs) = emit b0 (utf8_decode bs)"
  by simp

lemma utf8_decode_two:
  "194 \<le> b0 \<Longrightarrow> b0 < 224 \<Longrightarrow> is_cont b1 \<Longrightarrow>
   utf8_decode (b0 # b1 # r) = emit ((b0 - 192) * 64 + (b1 - 128)) (utf8_decode r)"
  by simp

lemma utf8_decode_three:
  "224 \<le> b0 \<Longrightarrow> b0 < 240 \<Longrightarrow> is_cont b1 \<Longrightarrow> is_cont b2 \<Longrightarrow>
   (b0 = 224 \<longrightarrow> 160 \<le> b1) \<Longrightarrow> (b0 = 237 \<longrightarrow> b1 < 160) \<Longrightarrow>
   utf8_decode (b0 # b1 # b2 # r) =
     emit ((b0 - 224) * 4096 + (b1 - 128) * 64 + (b2 - 128)) (utf8_decode r)"
  by simp

lemma utf8_decode_four:
  "240 \<le> b0 \<Longrightarrow> b0 < 245 \<Longrightarrow> is_cont b1 \<Longrightarrow> is_cont b2 \<Longrightarrow> is_cont b3 \<Longrightarrow>
   (b0 = 240 \<longrightarrow> 144 \<le> b1) \<Longrightarrow> (b0 = 244 \<longrightarrow> b1 < 144) \<Longrightarrow>
   utf8_decode (b0 # b1 # b2 # b3 # r) =
     emit ((b0 - 240) * 262144 + (b1 - 128) * 4096 + (b2 - 128) * 64 + (b3 - 128))
       (utf8_decode r)"
  by simp

lemma utf8_roundtrip_two:
  assumes "128 \<le> c" "c < 2048"
  shows "utf8_decode ((192 + c div 64) # (128 + c mod 64) # rest) = emit c (utf8_decode rest)"
proof -
  note f = utf8_two [OF assms]
  have "is_cont (128 + c mod 64)"
    using f(3,4) by (simp add: is_cont_def)
  with f(1,2) have "utf8_decode ((192 + c div 64) # (128 + c mod 64) # rest) =
      emit ((192 + c div 64 - 192) * 64 + (128 + c mod 64 - 128)) (utf8_decode rest)"
    by (rule utf8_decode_two)
  then show ?thesis
    by (simp only: f(5))
qed

lemma utf8_roundtrip_three:
  assumes "2048 \<le> c" "c < 65536" "\<not> (55296 \<le> c \<and> c < 57344)"
  shows "utf8_decode ((224 + c div 4096) # (128 + c div 64 mod 64) # (128 + c mod 64) # rest)
    = emit c (utf8_decode rest)"
proof -
  note f = utf8_three_a [OF assms(1,2)]
  have c1: "is_cont (128 + c div 64 mod 64)" and c2: "is_cont (128 + c mod 64)"
    using f by (simp_all add: is_cont_def)
  have lo: "224 + c div 4096 = 224 \<longrightarrow> 160 \<le> 128 + c div 64 mod 64"
    using utf8_three_low [OF assms(1)] by simp
  have hi: "224 + c div 4096 = 237 \<longrightarrow> 128 + c div 64 mod 64 < 160"
  proof
    assume "224 + c div 4096 = 237"
    then have d: "c div 4096 = 13" by simp
    then have "c < 57344" by arith
    with assms(3) have "c < 55296" by simp
    with d have "c div 64 mod 64 < 32" by (rule utf8_three_high)
    then show "128 + c div 64 mod 64 < 160" by simp
  qed
  from f(1,2) c1 c2 lo hi
  have "utf8_decode ((224 + c div 4096) # (128 + c div 64 mod 64) # (128 + c mod 64) # rest) =
      emit ((224 + c div 4096 - 224) * 4096 + (128 + c div 64 mod 64 - 128) * 64
            + (128 + c mod 64 - 128)) (utf8_decode rest)"
    by (rule utf8_decode_three)
  moreover have "(224 + c div 4096 - 224) * 4096 + (128 + c div 64 mod 64 - 128) * 64
            + (128 + c mod 64 - 128) = c"
    using radix64_three [of c] by simp
  ultimately show ?thesis
    by (simp only:)
qed

lemma utf8_roundtrip_four:
  assumes "65536 \<le> c" "c < 1114112"
  shows "utf8_decode ((240 + c div 262144) # (128 + c div 4096 mod 64) #
            (128 + c div 64 mod 64) # (128 + c mod 64) # rest)
    = emit c (utf8_decode rest)"
proof -
  have c1: "is_cont (128 + c div 4096 mod 64)" and c2: "is_cont (128 + c div 64 mod 64)"
    and c3: "is_cont (128 + c mod 64)"
    by (simp_all add: is_cont_def)
  have l1: "240 \<le> 240 + c div 262144" by simp
  have l2: "240 + c div 262144 < 245"
    using utf8_four_lead [OF assms] by simp
  have lo: "240 + c div 262144 = 240 \<longrightarrow> 144 \<le> 128 + c div 4096 mod 64"
    using utf8_four_low [OF assms(1)] by simp
  have hi: "240 + c div 262144 = 244 \<longrightarrow> 128 + c div 4096 mod 64 < 144"
  proof
    assume "240 + c div 262144 = 244"
    then have "c div 262144 = 4" by simp
    then have "c div 4096 mod 64 < 16" using assms(2) by (rule utf8_four_high)
    then show "128 + c div 4096 mod 64 < 144" by simp
  qed
  from l1 l2 c1 c2 c3 lo hi
  have "utf8_decode ((240 + c div 262144) # (128 + c div 4096 mod 64) #
            (128 + c div 64 mod 64) # (128 + c mod 64) # rest) =
      emit ((240 + c div 262144 - 240) * 262144 + (128 + c div 4096 mod 64 - 128) * 4096
            + (128 + c div 64 mod 64 - 128) * 64 + (128 + c mod 64 - 128)) (utf8_decode rest)"
    by (rule utf8_decode_four)
  moreover have "(240 + c div 262144 - 240) * 262144 + (128 + c div 4096 mod 64 - 128) * 4096
            + (128 + c div 64 mod 64 - 128) * 64 + (128 + c mod 64 - 128) = c"
    using radix64_four [of c] by simp
  ultimately show ?thesis
    by (simp only:)
qed

lemma utf8_encode_char_bytes:
  assumes "utf8_encode_char c = Inr bs"
  shows "list_all (\<lambda>b. b < 256) bs"
proof -
  have "c < 1114112 \<Longrightarrow> c div 262144 < 5"
    by simp
  with assms show ?thesis
    by (auto simp: utf8_encode_char_def split: if_splits)
qed

lemma utf8_decode_encode_char:
  assumes "utf8_encode_char c = Inr bs"
  shows "utf8_decode (bs @ rest) = emit c (utf8_decode rest)"
proof -
  consider (one) "c < 128" | (two) "128 \<le> c" "c < 2048"
    | (three) "2048 \<le> c" "c < 65536" | (four) "65536 \<le> c" "c < 1114112"
    | (out) "1114112 \<le> c"
    by linarith
  then show ?thesis
  proof cases
    case one
    with assms have "bs = [c]" by (simp add: utf8_encode_char_def)
    with one show ?thesis by simp
  next
    case two
    with assms have "bs = [192 + c div 64, 128 + c mod 64]"
      by (simp add: utf8_encode_char_def)
    with utf8_roundtrip_two [OF two] show ?thesis by simp
  next
    case three
    with assms have ns: "\<not> (55296 \<le> c \<and> c < 57344)"
      and "bs = [224 + c div 4096, 128 + c div 64 mod 64, 128 + c mod 64]"
      by (auto simp: utf8_encode_char_def split: if_splits)
    with utf8_roundtrip_three [OF three ns] show ?thesis by simp
  next
    case four
    with assms have "bs = [240 + c div 262144, 128 + c div 4096 mod 64,
        128 + c div 64 mod 64, 128 + c mod 64]"
      by (simp add: utf8_encode_char_def)
    with utf8_roundtrip_four [OF four] show ?thesis by simp
  next
    case out
    with assms show ?thesis by (simp add: utf8_encode_char_def)
  qed
qed

lemma utf8_decode_encode:
  "utf8_encode s = Inr bs \<Longrightarrow> utf8_decode bs = Inr s"
proof (induction s arbitrary: bs)
  case Nil
  then show ?case by simp
next
  case (Cons c s)
  from Cons.prems obtain cb rest where cb: "utf8_encode_char c = Inr cb"
    and rest: "utf8_encode s = Inr rest" and bs: "bs = cb @ rest"
    by (auto simp: bind_exn_def split: sum.splits)
  from rest have "utf8_decode rest = Inr s" by (rule Cons.IH)
  with utf8_decode_encode_char [OF cb, of rest] bs show ?case
    by (simp add: emit_def)
qed

lemma utf8_encode_bytes:
  "utf8_encode s = Inr bs \<Longrightarrow> list_all (\<lambda>b. b < 256) bs"
proof (induction s arbitrary: bs)
  case Nil
  then show ?case by simp
next
  case (Cons c s)
  from Cons.prems obtain cb rest where cb: "utf8_encode_char c = Inr cb"
    and rest: "utf8_encode s = Inr rest" and bs: "bs = cb @ rest"
    by (auto simp: bind_exn_def split: sum.splits)
  from rest have "list_all (\<lambda>b. b < 256) rest" by (rule Cons.IH)
  with utf8_encode_char_bytes [OF cb] bs show ?case
    by simp
qed

subsection \<open>The header of a client\<close>

lemma unat_of_nat_byte: "b < 256 \<Longrightarrow> unat (of_nat b :: byte) = b"
  by (simp add: unat_of_nat)

lemma map_unat_of_nat_bytes:
  "list_all (\<lambda>b. b < 256) bs \<Longrightarrow> map unat (map of_nat bs :: bytes) = bs"
  by (induction bs) (simp_all add: unat_of_nat_byte)

lemma list_all_ascii_byte: "list_all (\<lambda>c. c < 128) cs \<Longrightarrow> list_all (\<lambda>b. b < (256 :: nat)) cs"
  by (induction cs) simp_all

lemma b64decode_b64encode:
  assumes "list_all (\<lambda>b. b < 256) bs"
  shows "b64decode (bytes_decode_ascii (b64encode (map of_nat bs))) = Inr (map of_nat bs)"
proof -
  have "bytes_decode_ascii (b64encode (map of_nat bs)) = b2a_base64 bs"
    using assms b2a_ascii [of bs]
    by (simp add: bytes_decode_ascii_def b64encode_def map_unat_of_nat_bytes list_all_ascii_byte
        del: map_map)
  moreover have "a2b_base64 0 0 0 (b2a_base64 bs) = Inr bs"
    using assms by (rule a2b_b2a)
  ultimately show ?thesis
    using b2a_ascii [of bs]
    by (simp add: b64decode_def bytes_from_decode_data_def bind_exn_def)
qed

lemma decode_of_encoded:
  assumes "str_encode_utf8 s = Inr raw"
  shows "decode_base64_authorization_header (PStr (bytes_decode_ascii (b64encode raw)))
    = Inr (PStr s)"
proof -
  from assms obtain bs where bs: "utf8_encode s = Inr bs" and raw: "raw = map of_nat bs"
    by (auto simp: str_encode_utf8_def bind_exn_def split: sum.splits)
  have lt: "list_all (\<lambda>b. b < 256) bs"
    using bs by (rule utf8_encode_bytes)
  have d: "b64decode (bytes_decode_ascii (b64encode raw)) = Inr raw"
    unfolding raw using lt by (rule b64decode_b64encode)
  have "bytes_decode_utf8 raw = utf8_decode bs"
    unfolding raw bytes_decode_utf8_def using lt by (simp only: map_unat_of_nat_bytes)
  also have "\<dots> = Inr s"
    using bs by (rule utf8_decode_encode)
  finally show ?thesis
    using d by (simp add: decode_base64_authorization_header_def bind_exn_def try_except_def)
qed

lemma basic_header_bob:
  "basic_header (lit ''bob@x.com'') (lit ''secret'') = Inr (lit ''Basic Ym9iQHguY29tOnNlY3JldA=='')"
  by (simp add: basic_header_def str_encode_utf8_def utf8_encode_char_def bind_exn_def lit_def
      colon_def bytes_decode_ascii_def b64encode_def b64_char_def b64_pad_def)

text \<open>
  C3. Round trip: for a user name and a password without a colon, whenever the client's
  header \<^verbatim>\<open>"Basic " + base64(user + ":" + password)\<close> exists (the text can be encoded as
  UTF-8), the extracting stage gives the token, the decoding stage gives back
  \<^verbatim>\<open>user:password\<close>, and the splitting stage gives exactly the pair of the user name and
  the password.
\<close>

theorem basic_header_round_trip:
  assumes "basic_header user pwd = Inr header"
    and "colon \<notin> set user" and "colon \<notin> set pwd"
  shows "\<exists>token.
      extract_base64_authorization_header (PStr header :: 'u pyval) = Inr (PStr token) \<and>
      decode_base64_authorization_header (PStr token :: 'u pyval)
        = Inr (PStr (user @ [colon] @ pwd)) \<and>
      extract_user_credentials (PStr (user @ [colon] @ pwd) :: 'u pyval)
        = Inr (PStr user, PStr pwd) \<and>
      credentials_of_header (PStr header :: 'u pyval) = Inr (PStr user, PStr pwd)"
proof -
  from assms(1) obtain raw where raw: "str_encode_utf8 (user @ [colon] @ pwd) = Inr raw"
    and header: "header = lit ''Basic '' @ bytes_decode_ascii (b64encode raw)"
    by (auto simp: basic_header_def bind_exn_def split: sum.splits)
  let ?token = "bytes_decode_ascii (b64encode raw)"
  have e: "extract_base64_authorization_header (PStr header :: 'u pyval) = Inr (PStr ?token)"
    unfolding header
    by (simp add: extract_base64_authorization_header_def startswith_def lit_def)
  have d: "decode_base64_authorization_header (PStr ?token :: 'u pyval)
      = Inr (PStr (user @ [colon] @ pwd))"
    using raw by (rule decode_of_encoded)
  have s: "extract_user_credentials (PStr (user @ [colon] @ pwd) :: 'u pyval)
      = Inr (PStr user, PStr pwd)"
    using assms(2) by (simp add: extract_user_credentials_append)
  have "credentials_of_header (PStr header :: 'u pyval) = Inr (PStr user, PStr pwd)"
    using credentials_step3 [OF e d] s by simp
  with e d s show ?thesis
    by blast
qed

theorem basic_header_round_trip_witness:
  "basic_header (lit ''bob@x.com'') (lit ''secret'') = Inr (lit ''Basic Ym9iQHguY29tOnNlY3JldA=='') \<and>
   colon \<notin> set (lit ''bob@x.com'') \<and> colon \<notin> set (lit ''secret'') \<and>
   credentials_of_header (PStr (lit ''Basic Ym9iQHguY29tOnNlY3JldA=='') :: unit pyval)
     = Inr (PStr (lit ''bob@x.com''), PStr (lit ''secret''))"
proof -
  have u: "colon \<notin> set (lit ''bob@x.com'')" and p: "colon \<notin> set (lit ''secret'')"
    by (simp_all add: lit_def colon_def)
  from basic_header_round_trip [OF basic_header_bob u p, where 'u = unit]
  have "credentials_of_header (PStr (lit ''Basic Ym9iQHguY29tOnNlY3JldA=='') :: unit pyval)
     = Inr (PStr (lit ''bob@x.com''), PStr (lit ''secret''))"
    by blast
  with basic_header_bob u p show ?thesis
    by blast
qed

section \<open>What the decoding stage rejects\<close>

lemma emit_Inl: "emit b (Inl e) = Inl e"
  by (simp add: emit_def)

















section \<open>\<^verbatim>\<open>filter_datum\<close> and the occurrences of the field names\<close>

lemma split_char_no_sep: "sep \<notin> set s \<Longrightarrow> split_char sep n s = [s]"
  by (cases n) (simp_all add: contains_char_def)

lemma split_join_bar:
  "fields \<noteq> [] \<Longrightarrow> \<forall>f\<in>set fields. bar \<notin> set f \<Longrightarrow> length (join_bar fields) \<le> n \<Longrightarrow>
   split_char bar n (join_bar fields) = fields"
proof (induction fields arbitrary: n rule: join_bar.induct)
  case 1
  then show ?case by simp
next
  case (2 f)
  then show ?case by (simp add: split_char_no_sep)
next
  case (3 f g fs)
  from "3.prems" have nf: "bar \<notin> set f" and rest: "\<forall>f\<in>set (g # fs). bar \<notin> set f"
    by simp_all
  from "3.prems"(3) obtain m where n: "n = Suc m" and m: "length (join_bar (g # fs)) \<le> m"
    by (cases n) simp_all
  have "split_char bar m (join_bar (g # fs)) = g # fs"
    using rest m by (intro "3.IH") simp_all
  with nf n show ?case
    by (simp add: contains_char_def first_colon_split)
qed

lemma alternatives_plain:
  "fields \<noteq> [] \<Longrightarrow> \<forall>f\<in>set fields. \<not> list_ex re_special f \<Longrightarrow> alternatives fields = fields"
proof -
  assume ne: "fields \<noteq> []" and pl: "\<forall>f\<in>set fields. \<not> list_ex re_special f"
  have "re_special bar"
    by (simp add: re_special_def bar_def)
  with pl have "\<forall>f\<in>set fields. bar \<notin> set f"
    by (auto simp: list_ex_iff)
  with ne show ?thesis
    unfolding alternatives_def by (intro split_join_bar) simp_all
qed

lemma filter_datum_plain:
  assumes "fields \<noteq> []" "\<forall>f\<in>set fields. \<not> list_ex re_special f" "separator \<noteq> backslash"
  shows "filter_datum fields redaction message separator
    = Returns (re_sub fields redaction separator message)"
proof -
  have "alternatives fields = fields"
    using assms(1,2) by (rule alternatives_plain)
  moreover have "\<not> list_ex (list_ex re_special) fields"
    using assms(2) by (simp add: list_ex_iff)
  ultimately show ?thesis
    using assms(3) by (simp add: filter_datum_def)
qed

lemma match_at_find:
  "match_at alts sep s =
     map_option (\<lambda>g. (g, length g + 1 + length (takeWhile (\<lambda>c. c \<noteq> sep) (drop (length g + 1) s))))
       (find (\<lambda>f. field_at f sep s) alts)"
  by (induction alts) (simp_all add: field_at_def startswith_prefix)

lemma match_at_None: "match_at alts sep s = None \<longleftrightarrow> \<not> occurs_at alts sep s"
  by (auto simp: match_at_find occurs_at_def find_None_iff list_ex_iff)

lemma re_sub_no_occurrence:
  "\<forall>i<length m. \<not> occurs_at alts sep (drop i m) \<Longrightarrow> re_sub alts redaction sep m = m"
proof (induction m)
  case Nil
  then show ?case by simp
next
  case (Cons c cs)
  from Cons.prems have "\<not> occurs_at alts sep (drop 0 (c # cs))"
    by blast
  then have n: "match_at alts sep (c # cs) = None"
    by (simp add: match_at_None)
  have "\<forall>i<length cs. \<not> occurs_at alts sep (drop i cs)"
  proof (intro allI impI)
    fix i assume "i < length cs"
    then have "Suc i < length (c # cs)" by simp
    with Cons.prems have "\<not> occurs_at alts sep (drop (Suc i) (c # cs))" by blast
    then show "\<not> occurs_at alts sep (drop i cs)" by simp
  qed
  then have "re_sub alts redaction sep cs = cs"
    by (rule Cons.IH)
  with n show ?case
    by simp
qed

lemma re_sub_skip_prefix:
  "\<forall>i<length pre. \<not> occurs_at alts sep (drop i (pre @ m)) \<Longrightarrow>
   re_sub alts redaction sep (pre @ m) = pre @ re_sub alts redaction sep m"
proof (induction pre)
  case Nil
  then show ?case by simp
next
  case (Cons c cs)
  from Cons.prems have "\<not> occurs_at alts sep (drop 0 ((c # cs) @ m))"
    by (metis length_greater_0_conv list.distinct(1))
  then have n: "match_at alts sep (c # cs @ m) = None"
    by (simp add: match_at_None)
  have "\<forall>i<length cs. \<not> occurs_at alts sep (drop i (cs @ m))"
  proof (intro allI impI)
    fix i assume "i < length cs"
    then have "Suc i < length (c # cs)" by simp
    with Cons.prems have "\<not> occurs_at alts sep (drop (Suc i) ((c # cs) @ m))" by blast
    then show "\<not> occurs_at alts sep (drop i (cs @ m))" by simp
  qed
  then have "re_sub alts redaction sep (cs @ m) = cs @ re_sub alts redaction sep m"
    by (rule Cons.IH)
  with n show ?case
    by simp
qed

lemma re_sub_at_match:
  assumes "find (\<lambda>g. field_at g sep (f @ [equals] @ run @ rest)) alts = Some f"
    and "sep \<notin> set run" and "rest = [] \<or> hd rest = sep"
  shows "re_sub alts redaction sep (f @ [equals] @ run @ rest) =
     f @ [equals] @ redaction @ re_sub alts redaction sep rest"
proof -
  let ?m = "f @ [equals] @ run @ rest"
  have tw: "takeWhile (\<lambda>c. c \<noteq> sep) (run @ rest) = run"
  proof (cases rest)
    case Nil
    with assms(2) show ?thesis
      by (auto simp: takeWhile_eq_all_conv)
  next
    case (Cons a list)
    with assms(3) have "rest = sep # list" by simp
    with assms(2) show ?thesis
      using first_colon_split(1) [of sep run list] by simp
  qed
  have "match_at alts sep ?m = Some (f, length f + 1 + length run)"
    using assms(1) tw by (simp add: match_at_find)
  moreover obtain c cs where m: "?m = c # cs"
    by (cases ?m) simp_all
  moreover have "drop (length f + 1 + length run) ?m = rest"
    by simp
  ultimately show ?thesis
    by (metis (no_types, lifting) re_sub.simps(2) option.simps(5) prod.simps(2))
qed

text \<open>
  C10, as stated, fails for the empty list of field names: \<^verbatim>\<open>"|".join([])\<close> is the
  empty string, the pattern is \<^verbatim>\<open>()=[^;]+\<close>, and the empty group matches before
  every \<^verbatim>\<open>=\<close>. No field is listed, yet every value of the message is redacted.
\<close>

theorem filter_datum_empty_fields:
  "filter_datum [] (lit ''***'') (lit ''x=1;y=2'') 59 = Returns (lit ''x=***;y=***'') \<and>
   lit ''x=***;y=***'' \<noteq> lit ''x=1;y=2''"
  by (simp add: filter_datum_def alternatives_def re_special_def backslash_def lit_def
      startswith_def equals_def)

text \<open>
  C10, amended. For a non-empty list of field names without special characters of
  \<^verbatim>\<open>re\<close> and a separator other than the backslash, \<^verbatim>\<open>filter_datum\<close> returns the message
  rewritten from the left. A message in which no listed name occurs (followed by \<^verbatim>\<open>=\<close>
  and a non-empty run up to the separator) comes back unchanged. Otherwise the text
  before the first position where a listed name occurs is unchanged; there the first
  listed name that occurs, with its \<^verbatim>\<open>=\<close> and the whole run up to the next separator or
  the end, becomes the name, \<^verbatim>\<open>=\<close> and the redaction; the text behind the run is
  rewritten in the same way.
\<close>

theorem filter_datum_leftmost:
  assumes "fields \<noteq> []" and "\<forall>f\<in>set fields. \<not> list_ex re_special f"
    and "separator \<noteq> backslash"
  shows "(\<exists>out. filter_datum fields redaction message separator = Returns out) \<and>
    ((\<forall>i<length message. \<not> occurs_at fields separator (drop i message)) \<longrightarrow>
       filter_datum fields redaction message separator = Returns message) \<and>
    ((\<forall>i<length pre. \<not> occurs_at fields separator (drop i (pre @ f @ [equals] @ run @ rest))) \<and>
      find (\<lambda>g. field_at g separator (f @ [equals] @ run @ rest)) fields = Some f \<and>
      separator \<notin> set run \<and> (rest = [] \<or> hd rest = separator) \<longrightarrow>
      (\<exists>out. filter_datum fields redaction rest separator = Returns out \<and>
         filter_datum fields redaction (pre @ f @ [equals] @ run @ rest) separator =
           Returns (pre @ f @ [equals] @ redaction @ out)))"
proof -
  note plain = filter_datum_plain [OF assms]
  have a: "\<exists>out. filter_datum fields redaction message separator = Returns out"
    by (simp add: plain)
  have b: "(\<forall>i<length message. \<not> occurs_at fields separator (drop i message)) \<longrightarrow>
       filter_datum fields redaction message separator = Returns message"
    by (simp add: plain re_sub_no_occurrence)
  have c: "(\<forall>i<length pre. \<not> occurs_at fields separator (drop i (pre @ f @ [equals] @ run @ rest))) \<and>
      find (\<lambda>g. field_at g separator (f @ [equals] @ run @ rest)) fields = Some f \<and>
      separator \<notin> set run \<and> (rest = [] \<or> hd rest = separator) \<longrightarrow>
      (\<exists>out. filter_datum fields redaction rest separator = Returns out \<and>
         filter_datum fields redaction (pre @ f @ [equals] @ run @ rest) separator =
           Returns (pre @ f @ [equals] @ redaction @ out))"
  proof
    assume h: "(\<forall>i<length pre. \<not> occurs_at fields separator (drop i (pre @ f @ [equals] @ run @ rest))) \<and>
      find (\<lambda>g. field_at g separator (f @ [equals] @ run @ rest)) fields = Some f \<and>
      separator \<notin> set run \<and> (rest = [] \<or> hd rest = separator)"
    then have "re_sub fields redaction separator (pre @ f @ [equals] @ run @ rest) =
        pre @ re_sub fields redaction separator (f @ [equals] @ run @ rest)"
      by (intro re_sub_skip_prefix) blast
    moreover from h have "re_sub fields redaction separator (f @ [equals] @ run @ rest) =
        f @ [equals] @ redaction @ re_sub fields redaction separator rest"
      by (intro re_sub_at_match) blast+
    ultimately show "\<exists>out. filter_datum fields redaction rest separator = Returns out \<and>
         filter_datum fields redaction (pre @ f @ [equals] @ run @ rest) separator =
           Returns (pre @ f @ [equals] @ redaction @ out)"
      by (simp add: plain)
  qed
  from a b c show ?thesis
    by blast
qed

theorem filter_datum_leftmost_witness:
  "filter_datum [lit ''pw''] (lit ''xxx'') (lit ''a=0;pw=1;b=2'') 59 = Returns (lit ''a=0;pw=xxx;b=2'') \<and>
   filter_datum [lit ''pw''] (lit ''xxx'') (lit '';b=2'') 59 = Returns (lit '';b=2'')"
proof -
  let ?fields = "[lit ''pw'']"
  have ne: "?fields \<noteq> []"
    by simp
  have pl: "\<forall>f\<in>set ?fields. \<not> list_ex re_special f"
    by (simp add: lit_def re_special_def)
  have sp: "(59 :: nat) \<noteq> backslash"
    by (simp add: backslash_def)
  have h2: "\<forall>i<length (lit ''a=0;''). \<not> occurs_at ?fields 59
      (drop i (lit ''a=0;'' @ lit ''pw'' @ [equals] @ lit ''1'' @ lit '';b=2''))"
    by (simp add: lit_def occurs_at_def field_at_def equals_def All_less_Suc numeral_eq_Suc)
  have h3: "find (\<lambda>g. field_at g 59 (lit ''pw'' @ [equals] @ lit ''1'' @ lit '';b=2'')) ?fields
      = Some (lit ''pw'')"
    by (simp add: lit_def field_at_def equals_def)
  have h4: "59 \<notin> set (lit ''1'')" "lit '';b=2'' = [] \<or> hd (lit '';b=2'') = 59"
    by (simp_all add: lit_def)
  have h5: "\<forall>i<length (lit '';b=2''). \<not> occurs_at ?fields 59 (drop i (lit '';b=2''))"
    by (simp add: lit_def occurs_at_def field_at_def equals_def All_less_Suc numeral_eq_Suc)
  note t = filter_datum_leftmost [OF ne pl sp, where redaction = "lit ''xxx''"]
  from t [where message = "lit '';b=2''"] h5
  have b: "filter_datum ?fields (lit ''xxx'') (lit '';b=2'') 59 = Returns (lit '';b=2'')"
    by blast
  from t [where pre = "lit ''a=0;''" and f = "lit ''pw''" and run = "lit ''1''"
      and rest = "lit '';b=2''"] h2 h3 h4
  obtain out where "filter_datum ?fields (lit ''xxx'') (lit '';b=2'') 59 = Returns out"
    and "filter_datum ?fields (lit ''xxx'')
      (lit ''a=0;'' @ lit ''pw'' @ [equals] @ lit ''1'' @ lit '';b=2'') 59
      = Returns (lit ''a=0;'' @ lit ''pw'' @ [equals] @ lit ''xxx'' @ out)"
    by blast
  with b have "filter_datum ?fields (lit ''xxx'')
      (lit ''a=0;'' @ lit ''pw'' @ [equals] @ lit ''1'' @ lit '';b=2'') 59
      = Returns (lit ''a=0;'' @ lit ''pw'' @ [equals] @ lit ''xxx'' @ lit '';b=2'')"
    by simp
  moreover have "lit ''a=0;'' @ lit ''pw'' @ [equals] @ lit ''1'' @ lit '';b=2'' = lit ''a=0;pw=1;b=2''"
    and "lit ''a=0;'' @ lit ''pw'' @ [equals] @ lit ''xxx'' @ lit '';b=2'' = lit ''a=0;pw=xxx;b=2''"
    by (simp_all add: lit_def equals_def)
  ultimately have "filter_datum ?fields (lit ''xxx'') (lit ''a=0;pw=1;b=2'') 59
      = Returns (lit ''a=0;pw=xxx;b=2'')"
    by simp
  with b show ?thesis
    by blast
qed

section \<open>No stage raises; what each stage rejects\<close>

















end
